theory Spec2Isabelle
  imports Main
begin

section \<open>The cache of \<^verbatim>\<open>bdlcc_cache.h\<close>\<close>

text \<open>
  The class template \<^verbatim>\<open>bdlcc::Cache<KeyType, ValueType, Hash, Equal>\<close> is embedded
  sequentially: one operation runs at a time, as it does under the write lock. The
  reader-writer lock is not part of the model.

  \<^item> \<^verbatim>\<open>ValuePtrType\<close> (a shared pointer) is a value handle of type \<open>'v\<close>.
  \<^item> \<^verbatim>\<open>QueueType\<close> is a \<^verbatim>\<open>bsl::list<KeyType>\<close>. A list iterator denotes a node, so the
    queue is a list of nodes, each a pair of the node's identity and the key it holds.
  \<^item> \<^verbatim>\<open>MapType\<close> maps a key to the pair of its value handle and a queue iterator.
  \<^item> \<^verbatim>\<open>bsl::size_t\<close> quantities are only compared, never added to, so they are \<open>nat\<close>.
  \<^item> \<^verbatim>\<open>PostEvictionCallback\<close> is a \<^verbatim>\<open>bsl::function\<close>: \<open>None\<close> is the empty function,
    \<open>Some f\<close> a callable \<open>f\<close>.
\<close>

datatype CacheEvictionPolicy = e_LRU | e_FIFO

type_synonym node = nat

type_synonym 'k QueueType = "(node \<times> 'k) list"

type_synonym ('k, 'v) MapType = "'k \<rightharpoonup> ('v \<times> node)"

text \<open>
  The field \<open>evictions\<close> is not a member of the class. It is the trace of the calls of
  \<^verbatim>\<open>evictItem\<close>, oldest first: the key removed, its value handle, and the callback that
  was invoked with that handle (\<open>None\<close> when no callback was set, so that nothing was
  invoked).
\<close>

record ('k, 'v, 'cb) Cache =
  d_map :: "('k, 'v) MapType"
  d_queue :: "'k QueueType"
  d_evictionPolicy :: CacheEvictionPolicy
  d_lowWatermark :: nat
  d_highWatermark :: nat
  d_postEvictionCallback :: "'cb option"
  evictions :: "('k \<times> 'v \<times> 'cb option) list"

text \<open>
  What ends the program instead of returning: a failed \<^verbatim>\<open>BSLS_ASSERT\<close>, and the use of
  a list iterator that denotes no node of the list (undefined behaviour in C++).
\<close>

datatype abort = AssertionFailed | InvalidIterator

text \<open>How a call of \<^verbatim>\<open>insert\<close> ends when it does not abort.\<close>

datatype completion = Returned | ThrewBadAlloc

subsection \<open>The list operations the cache uses\<close>

text \<open>
  \<^verbatim>\<open>push_back\<close> allocates a node. Its identity differs from those of the nodes in the
  list; identities of erased nodes may come back, as addresses do.
\<close>

definition fresh_node :: "'k QueueType \<Rightarrow> node" where
  "fresh_node q = Suc (fold max (map fst q) 0)"

definition push_back :: "'k \<Rightarrow> 'k QueueType \<Rightarrow> 'k QueueType" where
  "push_back key q = q @ [(fresh_node q, key)]"

definition pop_back :: "'k QueueType \<Rightarrow> 'k QueueType" where
  "pop_back q = butlast q"

definition front :: "'k QueueType \<Rightarrow> abort + 'k" where
  "front q = (case q of [] \<Rightarrow> Inl InvalidIterator | (n, key) # _ \<Rightarrow> Inr key)"

text \<open>\<^verbatim>\<open>end(); --itr\<close>: the iterator to the last node.\<close>

definition last_node :: "'k QueueType \<Rightarrow> abort + node" where
  "last_node q = (case q of [] \<Rightarrow> Inl InvalidIterator | _ # _ \<Rightarrow> Inr (fst (last q)))"

definition list_erase :: "node \<Rightarrow> 'k QueueType \<Rightarrow> abort + 'k QueueType" where
  "list_erase itr q =
     (if itr \<in> fst ` set q then Inr (filter (\<lambda>e. fst e \<noteq> itr) q)
      else Inl InvalidIterator)"

text \<open>\<^verbatim>\<open>q.splice(q.end(), q, itr)\<close>: the node moves to the back and keeps its identity.\<close>

definition splice_to_end :: "node \<Rightarrow> 'k QueueType \<Rightarrow> abort + 'k QueueType" where
  "splice_to_end itr q =
     (if itr \<in> fst ` set q
      then Inr (filter (\<lambda>e. fst e \<noteq> itr) q @ filter (\<lambda>e. fst e = itr) q)
      else Inl InvalidIterator)"

subsection \<open>Creators and accessors\<close>

text \<open>
  The constructor taking a policy and the two watermarks. Its behaviour is undefined
  unless \<open>1 \<le> lowWatermark \<le> highWatermark\<close>; the theorems state that where they need
  it.
\<close>

definition mkCache :: "CacheEvictionPolicy \<Rightarrow> nat \<Rightarrow> nat \<Rightarrow> ('k, 'v, 'cb) Cache" where
  "mkCache evictionPolicy lowWatermark highWatermark =
     \<lparr>d_map = Map.empty, d_queue = [], d_evictionPolicy = evictionPolicy,
      d_lowWatermark = lowWatermark, d_highWatermark = highWatermark,
      d_postEvictionCallback = None, evictions = []\<rparr>"

definition cache_size :: "('k, 'v, 'cb) Cache \<Rightarrow> nat" where
  "cache_size c = card (dom (d_map c))"

subsection \<open>Private manipulators\<close>

text \<open>
  \<^verbatim>\<open>evictItem(mapItr)\<close>: a map iterator that is not \<^verbatim>\<open>end()\<close> denotes an entry, the key
  with its pair of value handle and queue iterator.
\<close>

definition evictItem ::
  "'k \<times> ('v \<times> node) \<Rightarrow> ('k, 'v, 'cb) Cache \<Rightarrow> abort + ('k, 'v, 'cb) Cache" where
  "evictItem mapItr c =
     (let key = fst mapItr; value = fst (snd mapItr); queueItr = snd (snd mapItr) in
      case list_erase queueItr (d_queue c) of
        Inl a \<Rightarrow> Inl a
      | Inr q \<Rightarrow>
          Inr (c\<lparr>d_queue := q,
                 d_map := (d_map c)(key := None),
                 evictions := evictions c @ [(key, value, d_postEvictionCallback c)]\<rparr>))"

text \<open>The \<^verbatim>\<open>while\<close> loop of \<^verbatim>\<open>enforceHighWatermark\<close>.\<close>

function evictLoop :: "('k, 'v, 'cb) Cache \<Rightarrow> abort + ('k, 'v, 'cb) Cache" where
  "evictLoop c =
     (if cache_size c \<ge> d_lowWatermark c \<and> cache_size c > 0 then
        (case front (d_queue c) of
           Inl a \<Rightarrow> Inl a
         | Inr key \<Rightarrow>
             (case d_map c key of
                None \<Rightarrow> Inl AssertionFailed
              | Some entry \<Rightarrow>
                  (case evictItem (key, entry) c of
                     Inl a \<Rightarrow> Inl a
                   | Inr c' \<Rightarrow> evictLoop c')))
      else Inr c)"
  by pat_completeness auto
termination
proof (relation "measure cache_size")
  show "wf (measure cache_size)" by simp
next
  fix c :: "('k, 'v, 'cb) Cache" and key entry c'
  assume pos: "d_lowWatermark c \<le> cache_size c \<and> 0 < cache_size c"
    and found: "d_map c key = Some entry"
    and ev: "evictItem (key, entry) c = Inr c'"
  from ev have m': "d_map c' = (d_map c)(key := None)"
    by (auto simp: evictItem_def Let_def split: sum.splits)
  from pos have fin: "finite (dom (d_map c))"
    unfolding cache_size_def using card_gt_0_iff by blast
  from found have "key \<in> dom (d_map c)" by auto
  with fin have "card (dom (d_map c) - {key}) < card (dom (d_map c))"
    by (rule card_Diff1_less)
  then show "(c', c) \<in> measure cache_size"
    by (simp add: cache_size_def m')
qed

definition enforceHighWatermark ::
  "('k, 'v, 'cb) Cache \<Rightarrow> abort + ('k, 'v, 'cb) Cache" where
  "enforceHighWatermark c =
     (if cache_size c < d_highWatermark c then Inr c else evictLoop c)"

text \<open>
  \<^verbatim>\<open>QueueProctor\<close>: its destructor removes the last element of the queue unless
  \<^verbatim>\<open>release\<close> was called.
\<close>

definition QueueProctor_destroy :: "bool \<Rightarrow> 'k QueueType \<Rightarrow> 'k QueueType" where
  "QueueProctor_destroy released q = (if released then q else pop_back q)"

subsection \<open>Manipulators\<close>

text \<open>
  \<^verbatim>\<open>insert(key, valuePtr)\<close>. The first argument says whether \<^verbatim>\<open>d_map.emplace\<close> throws
  (an allocation failure); the exception leaves the scope of the proctor, whose
  destructor then runs unreleased, and reaches the caller. \<^verbatim>\<open>push_back\<close> is taken to
  succeed: when it throws, the queue is as before and no proctor exists yet.
\<close>

definition cache_insert ::
  "bool \<Rightarrow> 'k \<Rightarrow> 'v \<Rightarrow> ('k, 'v, 'cb) Cache \<Rightarrow> abort + (completion \<times> ('k, 'v, 'cb) Cache)" where
  "cache_insert emplaceThrows key valuePtr c =
     (case enforceHighWatermark c of
        Inl a \<Rightarrow> Inl a
      | Inr c1 \<Rightarrow>
          (case d_map c1 key of
             Some (oldValue, queueItr) \<Rightarrow>
               (case splice_to_end queueItr (d_queue c1) of
                  Inl a \<Rightarrow> Inl a
                | Inr q \<Rightarrow>
                    Inr (Returned,
                         c1\<lparr>d_map := (d_map c1)(key \<mapsto> (valuePtr, queueItr)),
                            d_queue := q\<rparr>))
           | None \<Rightarrow>
               (let q = push_back key (d_queue c1) in
                case last_node q of
                  Inl a \<Rightarrow> Inl a
                | Inr queueItr \<Rightarrow>
                    if emplaceThrows
                    then Inr (ThrewBadAlloc, c1\<lparr>d_queue := QueueProctor_destroy False q\<rparr>)
                    else Inr (Returned,
                              c1\<lparr>d_queue := QueueProctor_destroy True q,
                                 d_map := (d_map c1)(key \<mapsto> (valuePtr, queueItr))\<rparr>))))"

text \<open>
  \<^verbatim>\<open>tryGetValue(value, key, modifyEvictionQueue)\<close> returns the status, what was loaded
  into \<^verbatim>\<open>*value\<close> (\<open>None\<close>: it was not written) and the cache.
\<close>

definition tryGetValue ::
  "'k \<Rightarrow> bool \<Rightarrow> ('k, 'v, 'cb) Cache \<Rightarrow> abort + (int \<times> 'v option \<times> ('k, 'v, 'cb) Cache)" where
  "tryGetValue key modifyEvictionQueue c =
     (case d_map c key of
        None \<Rightarrow> Inr (1, None, c)
      | Some (value, queueItr) \<Rightarrow>
          if d_evictionPolicy c = e_LRU \<and> modifyEvictionQueue then
            (case last_node (d_queue c) of
               Inl a \<Rightarrow> Inl a
             | Inr lastItr \<Rightarrow>
                 if lastItr \<noteq> queueItr then
                   (case splice_to_end queueItr (d_queue c) of
                      Inl a \<Rightarrow> Inl a
                    | Inr q \<Rightarrow> Inr (0, Some value, c\<lparr>d_queue := q\<rparr>))
                 else Inr (0, Some value, c))
          else Inr (0, Some value, c))"

definition popFront :: "('k, 'v, 'cb) Cache \<Rightarrow> abort + (int \<times> ('k, 'v, 'cb) Cache)" where
  "popFront c =
     (if cache_size c > 0 then
        (case front (d_queue c) of
           Inl a \<Rightarrow> Inl a
         | Inr key \<Rightarrow>
             (case d_map c key of
                None \<Rightarrow> Inl AssertionFailed
              | Some entry \<Rightarrow>
                  (case evictItem (key, entry) c of
                     Inl a \<Rightarrow> Inl a
                   | Inr c' \<Rightarrow> Inr (0, c'))))
      else Inr (1, c))"

definition erase :: "'k \<Rightarrow> ('k, 'v, 'cb) Cache \<Rightarrow> abort + (int \<times> ('k, 'v, 'cb) Cache)" where
  "erase key c =
     (case d_map c key of
        None \<Rightarrow> Inr (1, c)
      | Some entry \<Rightarrow>
          (case evictItem (key, entry) c of
             Inl a \<Rightarrow> Inl a
           | Inr c' \<Rightarrow> Inr (0, c')))"

definition setPostEvictionCallback ::
  "'cb option \<Rightarrow> ('k, 'v, 'cb) Cache \<Rightarrow> ('k, 'v, 'cb) Cache" where
  "setPostEvictionCallback postEvictionCallback c =
     c\<lparr>d_postEvictionCallback := postEvictionCallback\<rparr>"

definition clear :: "('k, 'v, 'cb) Cache \<Rightarrow> ('k, 'v, 'cb) Cache" where
  "clear c = c\<lparr>d_map := Map.empty, d_queue := []\<rparr>"

subsection \<open>Sequences of calls\<close>

text \<open>
  A client of the cache makes one call after the other. \<open>Insert\<close> is a call of
  \<^verbatim>\<open>insert\<close> whose \<^verbatim>\<open>emplace\<close> succeeds, \<open>InsertThrowing\<close> one whose \<^verbatim>\<open>emplace\<close>
  throws. \<open>step\<close> keeps the cache and drops what the call returned; \<open>run\<close> stops at
  the first call that aborts.
\<close>

datatype ('k, 'v, 'cb) call =
    Insert 'k 'v
  | InsertThrowing 'k 'v
  | TryGetValue 'k bool
  | PopFront
  | Erase 'k
  | SetPostEvictionCallback "'cb option"
  | Clear

fun step :: "('k, 'v, 'cb) call \<Rightarrow> ('k, 'v, 'cb) Cache \<Rightarrow> abort + ('k, 'v, 'cb) Cache" where
  "step (Insert key valuePtr) c =
     (case cache_insert False key valuePtr c of Inl a \<Rightarrow> Inl a | Inr r \<Rightarrow> Inr (snd r))"
| "step (InsertThrowing key valuePtr) c =
     (case cache_insert True key valuePtr c of Inl a \<Rightarrow> Inl a | Inr r \<Rightarrow> Inr (snd r))"
| "step (TryGetValue key modifyEvictionQueue) c =
     (case tryGetValue key modifyEvictionQueue c of
        Inl a \<Rightarrow> Inl a
      | Inr r \<Rightarrow> Inr (snd (snd r)))"
| "step PopFront c = (case popFront c of Inl a \<Rightarrow> Inl a | Inr r \<Rightarrow> Inr (snd r))"
| "step (Erase key) c = (case erase key c of Inl a \<Rightarrow> Inl a | Inr r \<Rightarrow> Inr (snd r))"
| "step (SetPostEvictionCallback cb) c = Inr (setPostEvictionCallback cb c)"
| "step Clear c = Inr (clear c)"

fun run :: "('k, 'v, 'cb) call list \<Rightarrow> ('k, 'v, 'cb) Cache \<Rightarrow> abort + ('k, 'v, 'cb) Cache" where
  "run [] c = Inr c"
| "run (x # xs) c = (case step x c of Inl a \<Rightarrow> Inl a | Inr c' \<Rightarrow> run xs c')"

text \<open>The keys of the queue, front first, and the callback invocations of the trace.\<close>

definition queue_keys :: "('k, 'v, 'cb) Cache \<Rightarrow> 'k list" where
  "queue_keys c = map snd (d_queue c)"

definition callback_calls :: "('k, 'v, 'cb) Cache \<Rightarrow> ('cb \<times> 'v) list" where
  "callback_calls c =
     concat (map (\<lambda>e. case snd (snd e) of None \<Rightarrow> [] | Some f \<Rightarrow> [(f, fst (snd e))])
                 (evictions c))"

text \<open>
  What a client observes after a sequence of calls: \<^verbatim>\<open>size()\<close>, the set of keys, and
  the keys evicted so far, in the order of their eviction. \<open>None\<close>: the sequence
  aborted.
\<close>

definition size_after ::
  "('k, 'v, 'cb) call list \<Rightarrow> ('k, 'v, 'cb) Cache \<Rightarrow> nat option" where
  "size_after xs c = (case run xs c of Inl a \<Rightarrow> None | Inr c' \<Rightarrow> Some (cache_size c'))"

definition keys_after ::
  "('k, 'v, 'cb) call list \<Rightarrow> ('k, 'v, 'cb) Cache \<Rightarrow> 'k set option" where
  "keys_after xs c = (case run xs c of Inl a \<Rightarrow> None | Inr c' \<Rightarrow> Some (dom (d_map c')))"

definition evicted_after ::
  "('k, 'v, 'cb) call list \<Rightarrow> ('k, 'v, 'cb) Cache \<Rightarrow> 'k list option" where
  "evicted_after xs c =
     (case run xs c of Inl a \<Rightarrow> None | Inr c' \<Rightarrow> Some (map fst (evictions c')))"

text \<open>
  The keys a sequence of calls inserts, in the order of the calls, and the sequences
  that only insert, read, pop the front and set the callback.
\<close>

fun inserted_keys :: "('k, 'v, 'cb) call list \<Rightarrow> 'k list" where
  "inserted_keys [] = []"
| "inserted_keys (Insert key valuePtr # xs) = key # inserted_keys xs"
| "inserted_keys (x # xs) = inserted_keys xs"

fun inserts_reads_pops :: "('k, 'v, 'cb) call list \<Rightarrow> bool" where
  "inserts_reads_pops [] = True"
| "inserts_reads_pops (Insert key valuePtr # xs) = inserts_reads_pops xs"
| "inserts_reads_pops (TryGetValue key modifyEvictionQueue # xs) = inserts_reads_pops xs"
| "inserts_reads_pops (PopFront # xs) = inserts_reads_pops xs"
| "inserts_reads_pops (SetPostEvictionCallback cb # xs) = inserts_reads_pops xs"
| "inserts_reads_pops (x # xs) = False"

subsection \<open>The class invariant\<close>

text \<open>
  Nodes have distinct identities, no key is queued twice, the queued keys are the keys
  of the map, and the iterator stored with a key denotes the node that holds the key.
\<close>

definition cache_inv :: "('k, 'v, 'cb) Cache \<Rightarrow> bool" where
  "cache_inv c \<longleftrightarrow>
     distinct (map fst (d_queue c)) \<and>
     distinct (map snd (d_queue c)) \<and>
     dom (d_map c) = snd ` set (d_queue c) \<and>
     (\<forall>e \<in> set (d_queue c). map_option snd (d_map c (snd e)) = Some (fst e))"

subsection \<open>The eviction pass in closed form\<close>

text \<open>
  \<open>evict_count low len\<close> is the number of iterations the loop of
  \<^verbatim>\<open>enforceHighWatermark\<close> makes on a cache of \<open>len\<close> items, and \<open>evictN n c\<close> the
  cache after the first \<open>n\<close> items of the queue were evicted. Both are used to state
  what the loop computes; neither is part of the source.
\<close>

definition evict_count :: "nat \<Rightarrow> nat \<Rightarrow> nat" where
  "evict_count low len = (if low \<le> len then min len (Suc len - low) else 0)"

definition evictN :: "nat \<Rightarrow> ('k, 'v, 'cb) Cache \<Rightarrow> ('k, 'v, 'cb) Cache" where
  "evictN n c =
     c\<lparr>d_queue := drop n (d_queue c),
       d_map := d_map c |` (- snd ` set (take n (d_queue c))),
       evictions := evictions c @
          map (\<lambda>e. (snd e, fst (the (d_map c (snd e))), d_postEvictionCallback c))
              (take n (d_queue c))\<rparr>"

declare evictLoop.simps [simp del]

section \<open>Properties\<close>

subsection \<open>Nodes and the invariant\<close>

lemma fold_max_ge: "fold max xs (a::nat) \<ge> a"
proof (induction xs arbitrary: a)
  case Nil then show ?case by simp
next
  case (Cons y ys)
  have "a \<le> max y a" by simp
  also have "\<dots> \<le> fold max ys (max y a)" by (rule Cons.IH)
  finally show ?case by simp
qed

lemma fold_max_mem: "x \<in> set xs \<Longrightarrow> x \<le> fold max xs (a::nat)"
proof (induction xs arbitrary: a)
  case Nil then show ?case by simp
next
  case (Cons y ys)
  show ?case
  proof (cases "x = y")
    case True
    have "max y a \<le> fold max ys (max y a)" by (rule fold_max_ge)
    with True show ?thesis by simp
  next
    case False
    with Cons show ?thesis by simp
  qed
qed

lemma fresh_node_notin: "fresh_node q \<notin> fst ` set q"
proof
  assume "fresh_node q \<in> fst ` set q"
  then have "fresh_node q \<in> set (map fst q)" by simp
  then have "fresh_node q \<le> fold max (map fst q) 0" by (rule fold_max_mem)
  then show False by (simp add: fresh_node_def)
qed

lemma inv_size: "cache_inv c \<Longrightarrow> cache_size c = length (d_queue c)"
proof -
  assume inv: "cache_inv c"
  then have "dom (d_map c) = set (map snd (d_queue c))" and d: "distinct (map snd (d_queue c))"
    by (auto simp: cache_inv_def)
  then have "cache_size c = card (set (map snd (d_queue c)))" by (simp add: cache_size_def)
  also have "\<dots> = length (map snd (d_queue c))" using d by (rule distinct_card)
  finally show ?thesis by simp
qed

lemma inv_mkCache: "cache_inv (mkCache p lo hi)"
  by (simp add: cache_inv_def mkCache_def)

lemma inv_lookup:
  "cache_inv c \<Longrightarrow> d_map c key = Some (v, n) \<Longrightarrow> (n, key) \<in> set (d_queue c)"
proof -
  assume inv: "cache_inv c" and f: "d_map c key = Some (v, n)"
  from f have "key \<in> dom (d_map c)" by auto
  with inv obtain e where e: "e \<in> set (d_queue c)" "snd e = key" by (auto simp: cache_inv_def)
  with inv obtain v' where "d_map c (snd e) = Some (v', fst e)" by (auto simp: cache_inv_def)
  with f e have "fst e = n" by simp
  with e show ?thesis by (cases e) auto
qed

lemma filter_node_eq_key:
  assumes "distinct (map fst q)" "distinct (map snd q)" "(n, key) \<in> set q"
  shows "filter (\<lambda>e. fst e \<noteq> n) q = filter (\<lambda>e. snd e \<noteq> key) q"
proof (rule filter_cong[OF refl])
  fix e assume e: "e \<in> set q"
  show "(fst e \<noteq> n) = (snd e \<noteq> key)"
  proof
    assume "fst e \<noteq> n" 
    show "snd e \<noteq> key"
    proof
      assume "snd e = key"
      with assms(2,3) e have "e = (n, key)" by (metis distinct_map inj_onD snd_conv)
      with \<open>fst e \<noteq> n\<close> show False by simp
    qed
  next
    assume "snd e \<noteq> key"
    show "fst e \<noteq> n"
    proof
      assume "fst e = n"
      with assms(1,3) e have "e = (n, key)" by (metis distinct_map inj_onD fst_conv)
      with \<open>snd e \<noteq> key\<close> show False by simp
    qed
  qed
qed

lemma evictItem_inv:
  assumes inv: "cache_inv c" and f: "d_map c key = Some (v, n)"
  shows "evictItem (key, (v, n)) c =
           Inr (c\<lparr>d_queue := filter (\<lambda>e. snd e \<noteq> key) (d_queue c),
                  d_map := (d_map c)(key := None),
                  evictions := evictions c @ [(key, v, d_postEvictionCallback c)]\<rparr>)"
    and "cache_inv (c\<lparr>d_queue := filter (\<lambda>e. snd e \<noteq> key) (d_queue c),
                  d_map := (d_map c)(key := None),
                  evictions := evictions c @ [(key, v, d_postEvictionCallback c)]\<rparr>)"
proof -
  from inv f have mem: "(n, key) \<in> set (d_queue c)" by (rule inv_lookup)
  from inv have d1: "distinct (map fst (d_queue c))" and d2: "distinct (map snd (d_queue c))"
    by (auto simp: cache_inv_def)
  have feq: "filter (\<lambda>e. fst e \<noteq> n) (d_queue c) = filter (\<lambda>e. snd e \<noteq> key) (d_queue c)"
    using d1 d2 mem by (rule filter_node_eq_key)
  from mem have "n \<in> fst ` set (d_queue c)" by force
  then show "evictItem (key, (v, n)) c =
           Inr (c\<lparr>d_queue := filter (\<lambda>e. snd e \<noteq> key) (d_queue c),
                  d_map := (d_map c)(key := None),
                  evictions := evictions c @ [(key, v, d_postEvictionCallback c)]\<rparr>)"
    by (simp add: evictItem_def list_erase_def feq)
  from inv show "cache_inv (c\<lparr>d_queue := filter (\<lambda>e. snd e \<noteq> key) (d_queue c),
                  d_map := (d_map c)(key := None),
                  evictions := evictions c @ [(key, v, d_postEvictionCallback c)]\<rparr>)"
    by (auto simp: cache_inv_def distinct_map_filter)
qed

subsection \<open>The eviction loop\<close>

lemma evictN_0: "evictN 0 c = c"
  by (simp add: evictN_def restrict_map_def)

lemma evictLoop_stop:
  "\<not> (d_lowWatermark c \<le> cache_size c \<and> 0 < cache_size c) \<Longrightarrow> evictLoop c = Inr c"
  by (subst evictLoop.simps) auto

lemma evictLoop_step:
  "d_lowWatermark c \<le> cache_size c \<and> 0 < cache_size c \<Longrightarrow> front (d_queue c) = Inr k \<Longrightarrow>
   d_map c k = Some entry \<Longrightarrow> evictItem (k, entry) c = Inr c1 \<Longrightarrow> evictLoop c = evictLoop c1"
  by (subst evictLoop.simps) simp

lemma evictN_Suc:
  assumes q: "d_queue c = (i, k) # q'" and d: "distinct (map snd (d_queue c))"
    and f: "d_map c k = Some (v, i)"
  shows "evictN (Suc n) c =
         evictN n (c\<lparr>d_queue := q', d_map := (d_map c)(k := None),
                     evictions := evictions c @ [(k, v, d_postEvictionCallback c)]\<rparr>)"
proof -
  from q d have nk: "\<And>e. e \<in> set q' \<Longrightarrow> snd e \<noteq> k" by (auto simp: image_iff)
  have m: "d_map c |` (- snd ` set (take (Suc n) (d_queue c))) =
           (d_map c)(k := None) |` (- snd ` set (take n q'))"
    by (rule ext) (simp add: q restrict_map_def)
  have ev: "map (\<lambda>e. (snd e, fst (the (d_map c (snd e))), d_postEvictionCallback c)) (take n q')
          = map (\<lambda>e. (snd e, fst (the (((d_map c)(k := None)) (snd e))), d_postEvictionCallback c)) (take n q')"
  proof (rule map_cong[OF refl])
    fix e assume "e \<in> set (take n q')"
    then have "e \<in> set q'" by (rule in_set_takeD)
    then have "snd e \<noteq> k" by (rule nk)
    then show "(snd e, fst (the (d_map c (snd e))), d_postEvictionCallback c) =
       (snd e, fst (the (((d_map c)(k := None)) (snd e))), d_postEvictionCallback c)" by simp
  qed
  show ?thesis
    unfolding evictN_def using m ev by (simp add: q f)
qed

lemma evict_count_step:
  "low \<le> len \<Longrightarrow> 0 < len \<Longrightarrow> evict_count low len = Suc (evict_count low (len - 1))"
  by (auto simp: evict_count_def min_def)

lemma evict_count_stop:
  "\<not> (low \<le> len \<and> 0 < len) \<Longrightarrow> evict_count low len = 0"
  by (auto simp: evict_count_def)

lemma inv_front:
  assumes inv: "cache_inv c" and q: "d_queue c = (i, k) # q'"
  shows "\<exists>v. d_map c k = Some (v, i)" and "filter (\<lambda>e. snd e \<noteq> k) (d_queue c) = q'"
proof -
  from inv q show "\<exists>v. d_map c k = Some (v, i)" by (auto simp: cache_inv_def)
  from inv q have "\<And>e. e \<in> set q' \<Longrightarrow> snd e \<noteq> k" by (auto simp: cache_inv_def image_iff)
  then have "filter (\<lambda>e. snd e \<noteq> k) q' = q'" by (simp add: filter_id_conv)
  then show "filter (\<lambda>e. snd e \<noteq> k) (d_queue c) = q'" by (simp add: q)
qed

lemma evictLoop_closed:
  "cache_inv c \<Longrightarrow>
   evictLoop c = Inr (evictN (evict_count (d_lowWatermark c) (length (d_queue c))) c)"
proof (induction c rule: evictLoop.induct)
  case (1 c)
  note inv = \<open>cache_inv c\<close>
  have sz: "cache_size c = length (d_queue c)" using inv by (rule inv_size)
  show ?case
  proof (cases "d_lowWatermark c \<le> cache_size c \<and> 0 < cache_size c")
    case False
    then have "evictLoop c = Inr c" by (rule evictLoop_stop)
    moreover from False have "evict_count (d_lowWatermark c) (length (d_queue c)) = 0"
      unfolding sz by (rule evict_count_stop)
    ultimately show ?thesis by (simp add: evictN_0)
  next
    case True
    with sz obtain i k q' where q: "d_queue c = (i, k) # q'"
      by (cases "d_queue c") auto
    from inv_front(1)[OF inv q] obtain v where f: "d_map c k = Some (v, i)" ..
    define c1 where "c1 = c\<lparr>d_queue := q', d_map := (d_map c)(k := None),
                     evictions := evictions c @ [(k, v, d_postEvictionCallback c)]\<rparr>"
    have fq: "filter (\<lambda>e. snd e \<noteq> k) (d_queue c) = q'" using inv q by (rule inv_front(2))
    have ev: "evictItem (k, (v, i)) c = Inr c1"
      using evictItem_inv(1)[OF inv f] by (simp add: fq c1_def)
    have inv1: "cache_inv c1"
      using evictItem_inv(2)[OF inv f] by (simp add: fq c1_def)
    have fr: "front (d_queue c) = Inr k" by (simp add: front_def q)
    have IH: "evictLoop c1 = Inr (evictN (evict_count (d_lowWatermark c1) (length (d_queue c1))) c1)"
      using "1.IH"[OF True fr f ev inv1] .
    have unfold: "evictLoop c = evictLoop c1"
      using True fr f ev by (rule evictLoop_step)
    have cnt: "evict_count (d_lowWatermark c) (length (d_queue c)) =
               Suc (evict_count (d_lowWatermark c) (length q'))"
      using True evict_count_step[of "d_lowWatermark c" "length (d_queue c)"] by (simp add: sz q)
    from inv have d: "distinct (map snd (d_queue c))" by (simp add: cache_inv_def)
    have "evictN (Suc (evict_count (d_lowWatermark c) (length q'))) c =
          evictN (evict_count (d_lowWatermark c) (length q')) c1"
      unfolding c1_def using q d f by (rule evictN_Suc)
    with unfold IH cnt show ?thesis by (simp add: c1_def)
  qed
qed

lemma inv_evictN:
  assumes inv: "cache_inv c"
  shows "cache_inv (evictN n c)"
proof -
  let ?q = "d_queue c"
  from inv have d1: "distinct (map fst ?q)" and d2: "distinct (map snd ?q)"
    and dm: "dom (d_map c) = snd ` set ?q"
    and en: "\<forall>e \<in> set ?q. \<exists>v. d_map c (snd e) = Some (v, fst e)"
    by (auto simp: cache_inv_def)
  have disj: "snd ` set (take n ?q) \<inter> snd ` set (drop n ?q) = {}"
    using set_take_disj_set_drop_if_distinct[OF d2, of n n]
    by (simp add: take_map drop_map)
  have un: "snd ` set ?q = snd ` set (take n ?q) \<union> snd ` set (drop n ?q)"
    by (metis append_take_drop_id image_Un set_append)
  have a: "distinct (map fst (drop n ?q))"
    using d1 by (simp add: drop_map[symmetric])
  have b: "distinct (map snd (drop n ?q))"
    using d2 by (simp add: drop_map[symmetric])
  have c: "dom (d_map c |` (- snd ` set (take n ?q))) = snd ` set (drop n ?q)"
    using dm un disj by auto
  have d: "\<forall>e \<in> set (drop n ?q). \<exists>v. (d_map c |` (- snd ` set (take n ?q))) (snd e) = Some (v, fst e)"
  proof
    fix e assume e: "e \<in> set (drop n ?q)"
    then have "e \<in> set ?q" by (rule in_set_dropD)
    with en obtain v where v: "d_map c (snd e) = Some (v, fst e)" by blast
    from e disj have "snd e \<notin> snd ` set (take n ?q)" by blast
    with v show "\<exists>v. (d_map c |` (- snd ` set (take n ?q))) (snd e) = Some (v, fst e)"
      by simp
  qed
  from a b c d show ?thesis by (simp add: cache_inv_def evictN_def)
qed

lemma evictN_fields [simp]:
  "d_queue (evictN n c) = drop n (d_queue c)"
  "d_map (evictN n c) = d_map c |` (- snd ` set (take n (d_queue c)))"
  "d_evictionPolicy (evictN n c) = d_evictionPolicy c"
  "d_lowWatermark (evictN n c) = d_lowWatermark c"
  "d_highWatermark (evictN n c) = d_highWatermark c"
  "d_postEvictionCallback (evictN n c) = d_postEvictionCallback c"
  by (simp_all add: evictN_def)

lemma enforce_closed:
  assumes inv: "cache_inv c"
  shows "enforceHighWatermark c =
         Inr (evictN (if length (d_queue c) < d_highWatermark c then 0
                      else evict_count (d_lowWatermark c) (length (d_queue c))) c)"
  using inv by (simp add: enforceHighWatermark_def inv_size evictLoop_closed evictN_0)

lemma filter_node_single:
  "distinct (map fst q) \<Longrightarrow> (n, k) \<in> set q \<Longrightarrow> filter (\<lambda>e. fst e = n) q = [(n, k)]"
proof (induction q)
  case Nil then show ?case by simp
next
  case (Cons e q)
  show ?case
  proof (cases "e = (n, k)")
    case True
    with Cons.prems have "\<And>x. x \<in> set q \<Longrightarrow> fst x \<noteq> n" by (auto simp: image_iff)
    then have "filter (\<lambda>e. fst e = n) q = []" by (simp add: filter_empty_conv)
    with True show ?thesis by simp
  next
    case False
    with Cons.prems have mem: "(n, k) \<in> set q" by simp
    with Cons.prems have "fst e \<noteq> n" by (auto simp: image_iff)
    with Cons mem show ?thesis by simp
  qed
qed

lemma splice_inv:
  assumes inv: "cache_inv c" and f: "d_map c key = Some (v, n)"
  shows "splice_to_end n (d_queue c) = Inr (filter (\<lambda>e. snd e \<noteq> key) (d_queue c) @ [(n, key)])"
proof -
  from inv f have mem: "(n, key) \<in> set (d_queue c)" by (rule inv_lookup)
  from inv have d1: "distinct (map fst (d_queue c))" and d2: "distinct (map snd (d_queue c))"
    by (auto simp: cache_inv_def)
  have feq: "filter (\<lambda>e. fst e \<noteq> n) (d_queue c) = filter (\<lambda>e. snd e \<noteq> key) (d_queue c)"
    using d1 d2 mem by (rule filter_node_eq_key)
  have one: "filter (\<lambda>e. fst e = n) (d_queue c) = [(n, key)]"
    using d1 mem by (rule filter_node_single)
  from mem have "n \<in> fst ` set (d_queue c)" by force
  then show ?thesis by (simp add: splice_to_end_def feq one)
qed

lemma inv_move_to_back:
  assumes inv: "cache_inv c" and f: "d_map c key = Some (v, n)"
  shows "cache_inv (c\<lparr>d_map := (d_map c)(key \<mapsto> (v', n)),
                      d_queue := filter (\<lambda>e. snd e \<noteq> key) (d_queue c) @ [(n, key)]\<rparr>)"
proof -
  let ?q = "d_queue c"
  from inv f have mem: "(n, key) \<in> set ?q" by (rule inv_lookup)
  from inv have d1: "distinct (map fst ?q)" and d2: "distinct (map snd ?q)"
    and dm: "dom (d_map c) = snd ` set ?q"
    and en: "\<forall>e \<in> set ?q. \<exists>v. d_map c (snd e) = Some (v, fst e)"
    by (auto simp: cache_inv_def)
  have feq: "filter (\<lambda>e. snd e \<noteq> key) ?q = filter (\<lambda>e. fst e \<noteq> n) ?q"
    using d1 d2 mem by (rule filter_node_eq_key[symmetric])
  have a: "distinct (map fst (filter (\<lambda>e. snd e \<noteq> key) ?q @ [(n, key)]))"
    using d1 by (auto simp: feq distinct_map_filter)
  have b: "distinct (map snd (filter (\<lambda>e. snd e \<noteq> key) ?q @ [(n, key)]))"
    using d2 by (auto simp: distinct_map_filter)
  have c: "dom ((d_map c)(key \<mapsto> (v', n))) = snd ` set (filter (\<lambda>e. snd e \<noteq> key) ?q @ [(n, key)])"
    using dm by auto
  have d: "\<forall>e \<in> set (filter (\<lambda>e. snd e \<noteq> key) ?q @ [(n, key)]).
             \<exists>v. ((d_map c)(key \<mapsto> (v', n))) (snd e) = Some (v, fst e)"
    using en by auto
  from a b c d show ?thesis by (simp add: cache_inv_def)
qed

lemma inv_push_back:
  assumes inv: "cache_inv c" and f: "d_map c key = None"
  shows "cache_inv (c\<lparr>d_queue := d_queue c @ [(fresh_node (d_queue c), key)],
                      d_map := (d_map c)(key \<mapsto> (v, fresh_node (d_queue c)))\<rparr>)"
proof -
  let ?q = "d_queue c"
  from inv have d1: "distinct (map fst ?q)" and d2: "distinct (map snd ?q)"
    and dm: "dom (d_map c) = snd ` set ?q"
    and en: "\<forall>e \<in> set ?q. \<exists>v. d_map c (snd e) = Some (v, fst e)"
    by (auto simp: cache_inv_def)
  from f dm have nk: "key \<notin> snd ` set ?q" by auto
  have fr: "fresh_node ?q \<notin> fst ` set ?q" by (rule fresh_node_notin)
  have d: "\<forall>e \<in> set (?q @ [(fresh_node ?q, key)]).
             \<exists>v'. ((d_map c)(key \<mapsto> (v, fresh_node ?q))) (snd e) = Some (v', fst e)"
    using en nk by (auto simp: image_iff)
  from d1 d2 dm nk fr d show ?thesis by (simp add: cache_inv_def)
qed

subsection \<open>Every operation keeps the invariant\<close>

lemma last_node_push_back: "last_node (push_back key q) = Inr (fresh_node q)"
  by (cases q) (simp_all add: last_node_def push_back_def)

lemma insert_present:
  assumes inv1: "cache_inv c1" and en: "enforceHighWatermark c = Inr c1"
    and f: "d_map c1 key = Some (old, n)"
  shows "cache_insert t key v c =
           Inr (Returned, c1\<lparr>d_map := (d_map c1)(key \<mapsto> (v, n)),
                   d_queue := filter (\<lambda>e. snd e \<noteq> key) (d_queue c1) @ [(n, key)]\<rparr>)"
  using splice_inv[OF inv1 f] by (simp add: cache_insert_def en f)

lemma insert_absent_returns:
  assumes en: "enforceHighWatermark c = Inr c1" and f: "d_map c1 key = None"
  shows "cache_insert False key v c =
           Inr (Returned, c1\<lparr>d_queue := d_queue c1 @ [(fresh_node (d_queue c1), key)],
                   d_map := (d_map c1)(key \<mapsto> (v, fresh_node (d_queue c1)))\<rparr>)"
  by (simp add: cache_insert_def en f Let_def last_node_push_back QueueProctor_destroy_def)
     (simp add: push_back_def)

lemma insert_absent_throws:
  assumes en: "enforceHighWatermark c = Inr c1" and f: "d_map c1 key = None"
  shows "cache_insert True key v c = Inr (ThrewBadAlloc, c1)"
  by (simp add: cache_insert_def en f Let_def last_node_push_back QueueProctor_destroy_def)
     (simp add: push_back_def pop_back_def)

lemma inv_enforce:
  assumes inv: "cache_inv c"
  obtains c1 where "enforceHighWatermark c = Inr c1" "cache_inv c1"
    "d_evictionPolicy c1 = d_evictionPolicy c" "d_lowWatermark c1 = d_lowWatermark c"
    "d_highWatermark c1 = d_highWatermark c" "d_postEvictionCallback c1 = d_postEvictionCallback c"
  using enforce_closed[OF inv] inv_evictN[OF inv] evictN_fields by metis

lemma insert_inv:
  assumes inv: "cache_inv c"
  shows "\<exists>r c'. cache_insert t key v c = Inr (r, c') \<and> cache_inv c' \<and>
           d_evictionPolicy c' = d_evictionPolicy c \<and> d_lowWatermark c' = d_lowWatermark c \<and>
           d_highWatermark c' = d_highWatermark c"
proof -
  from inv obtain c1 where en: "enforceHighWatermark c = Inr c1" and inv1: "cache_inv c1"
    and fl: "d_evictionPolicy c1 = d_evictionPolicy c" "d_lowWatermark c1 = d_lowWatermark c"
    "d_highWatermark c1 = d_highWatermark c"
    by (rule inv_enforce)
  show ?thesis
  proof (cases "d_map c1 key")
    case None
    show ?thesis
    proof (cases t)
      case True
      with insert_absent_throws[OF en None, of v] inv1 fl show ?thesis by simp
    next
      case False
      with insert_absent_returns[OF en None, of v] inv_push_back[OF inv1 None, of v] fl
      show ?thesis by simp
    qed
  next
    case (Some entry)
    then obtain old n where f: "d_map c1 key = Some (old, n)" by (cases entry) simp
    from insert_present[OF inv1 en f, of t v] inv_move_to_back[OF inv1 f, of v] fl
    show ?thesis by simp
  qed
qed

lemma inv_nonempty: "cache_inv c \<Longrightarrow> d_map c key = Some (v, n) \<Longrightarrow> d_queue c \<noteq> []"
  using inv_lookup by fastforce

lemma tryGetValue_inv:
  assumes inv: "cache_inv c"
  shows "\<exists>rc out c'. tryGetValue key m c = Inr (rc, out, c') \<and> cache_inv c' \<and>
           d_evictionPolicy c' = d_evictionPolicy c \<and> d_lowWatermark c' = d_lowWatermark c \<and>
           d_highWatermark c' = d_highWatermark c"
proof (cases "d_map c key")
  case None
  with inv show ?thesis by (simp add: tryGetValue_def)
next
  case (Some entry)
  then obtain v n where f: "d_map c key = Some (v, n)" by (cases entry) simp
  from inv f have ne: "d_queue c \<noteq> []" by (rule inv_nonempty)
  then have ln: "last_node (d_queue c) = Inr (fst (last (d_queue c)))"
    by (cases "d_queue c") (simp_all add: last_node_def)
  have "(d_map c)(key \<mapsto> (v, n)) = d_map c" using f by (rule map_upd_triv)
  with inv_move_to_back[OF inv f, of v]
  have inv': "cache_inv (c\<lparr>d_queue := filter (\<lambda>e. snd e \<noteq> key) (d_queue c) @ [(n, key)]\<rparr>)"
    by simp
  from inv inv' splice_inv[OF inv f] show ?thesis
    by (simp add: tryGetValue_def f ln)
qed

lemma erase_inv:
  assumes inv: "cache_inv c"
  shows "\<exists>rc c'. erase key c = Inr (rc, c') \<and> cache_inv c' \<and>
           d_evictionPolicy c' = d_evictionPolicy c \<and> d_lowWatermark c' = d_lowWatermark c \<and>
           d_highWatermark c' = d_highWatermark c"
proof (cases "d_map c key")
  case None
  with inv show ?thesis by (simp add: erase_def)
next
  case (Some entry)
  then obtain v n where f: "d_map c key = Some (v, n)" by (cases entry) simp
  from evictItem_inv[OF inv f] show ?thesis by (simp add: erase_def f)
qed

lemma popFront_inv:
  assumes inv: "cache_inv c"
  shows "\<exists>rc c'. popFront c = Inr (rc, c') \<and> cache_inv c' \<and>
           d_evictionPolicy c' = d_evictionPolicy c \<and> d_lowWatermark c' = d_lowWatermark c \<and>
           d_highWatermark c' = d_highWatermark c"
proof (cases "d_queue c")
  case Nil
  with inv show ?thesis by (simp add: popFront_def inv_size)
next
  case (Cons e q')
  obtain i k where e: "e = (i, k)" by (cases e)
  with Cons have q: "d_queue c = (i, k) # q'" by simp
  from inv_front(1)[OF inv q] obtain v where f: "d_map c k = Some (v, i)" ..
  from evictItem_inv[OF inv f] show ?thesis
    by (simp add: popFront_def inv_size[OF inv] q front_def f)
qed

lemma step_inv:
  assumes inv: "cache_inv c"
  shows "\<exists>c'. step x c = Inr c' \<and> cache_inv c' \<and>
           d_evictionPolicy c' = d_evictionPolicy c \<and> d_lowWatermark c' = d_lowWatermark c \<and>
           d_highWatermark c' = d_highWatermark c"
proof (cases x)
  case (Insert k v)
  with insert_inv[OF inv, of False k v] show ?thesis by auto
next
  case (InsertThrowing k v)
  with insert_inv[OF inv, of True k v] show ?thesis by auto
next
  case (TryGetValue k m)
  with tryGetValue_inv[OF inv, of k m] show ?thesis by auto
next
  case PopFront
  with popFront_inv[OF inv] show ?thesis by auto
next
  case (Erase k)
  with erase_inv[OF inv, of k] show ?thesis by auto
next
  case (SetPostEvictionCallback cb)
  with inv show ?thesis by (simp add: setPostEvictionCallback_def cache_inv_def)
next
  case Clear
  with inv show ?thesis by (simp add: clear_def cache_inv_def)
qed

lemma run_inv:
  "cache_inv c \<Longrightarrow> \<exists>c'. run xs c = Inr c' \<and> cache_inv c' \<and>
           d_evictionPolicy c' = d_evictionPolicy c \<and> d_lowWatermark c' = d_lowWatermark c \<and>
           d_highWatermark c' = d_highWatermark c"
proof (induction xs arbitrary: c)
  case Nil
  then show ?case by simp
next
  case (Cons x xs)
  from step_inv[OF Cons.prems, of x] obtain c1 where s: "step x c = Inr c1" and i1: "cache_inv c1"
    and fl: "d_evictionPolicy c1 = d_evictionPolicy c" "d_lowWatermark c1 = d_lowWatermark c"
           "d_highWatermark c1 = d_highWatermark c" by blast
  from Cons.IH[OF i1] s fl show ?case by simp
qed

subsection \<open>Reachable states\<close>

lemma reach_inv:
  assumes "run calls (mkCache policy low high) = Inr c"
  shows "cache_inv c" "d_evictionPolicy c = policy" "d_lowWatermark c = low" "d_highWatermark c = high"
  using run_inv[OF inv_mkCache, of calls policy low high] assms
  by (simp_all add: mkCache_def)

lemma inv_positions:
  assumes inv: "cache_inv c" and k: "key \<in> dom (d_map c)"
  shows "\<exists>!i. i < length (d_queue c) \<and> snd (d_queue c ! i) = key"
proof -
  from inv have d2: "distinct (map snd (d_queue c))" and dm: "dom (d_map c) = snd ` set (d_queue c)"
    by (auto simp: cache_inv_def)
  from k dm have "key \<in> set (map snd (d_queue c))" by simp
  then obtain i where i: "i < length (map snd (d_queue c))" "map snd (d_queue c) ! i = key"
    by (auto simp: in_set_conv_nth)
  show ?thesis
  proof (rule ex1I[of _ i])
    from i show "i < length (d_queue c) \<and> snd (d_queue c ! i) = key" by simp
  next
    fix j assume j: "j < length (d_queue c) \<and> snd (d_queue c ! j) = key"
    then have eq: "map snd (d_queue c) ! j = map snd (d_queue c) ! i" using i by simp
    from j have jl: "j < length (map snd (d_queue c))" by simp
    from nth_eq_iff_index_eq[OF d2 jl i(1)] eq show "j = i" by simp
  qed
qed

lemma evictN_absent: "d_map c key = None \<Longrightarrow> d_map (evictN n c) key = None"
  by (simp add: restrict_map_def)

lemma inv_absent_queue: "cache_inv c \<Longrightarrow> d_map c key = None \<Longrightarrow> key \<notin> snd ` set (d_queue c)"
  by (auto simp: cache_inv_def)

lemma callback_calls_append:
  "callback_calls (c\<lparr>evictions := evictions c @ [(k, v, cb)]\<rparr>) =
   callback_calls c @ (case cb of None \<Rightarrow> [] | Some f \<Rightarrow> [(f, v)])"
  by (simp add: callback_calls_def split: option.split)

lemma last_node_snoc: "last_node (q @ [(n, k)]) = Inr n"
  by (cases q) (simp_all add: last_node_def)

lemma evict_count_high:
  "1 \<le> low \<Longrightarrow> low \<le> len \<Longrightarrow> len - evict_count low len = low - 1"
  by (auto simp: evict_count_def min_def)

lemma insert_size_le:
  assumes inv1: "cache_inv c1" and en: "enforceHighWatermark c = Inr c1"
    and ins: "cache_insert t key v c = Inr (r, c')"
  shows "cache_size c' \<le> Suc (cache_size c1)"
proof (cases "d_map c1 key")
  case None
  from inv1 have fin: "finite (dom (d_map c1))" by (simp add: cache_inv_def)
  show ?thesis
  proof (cases t)
    case True
    with insert_absent_throws[OF en None, of v] ins have "c' = c1" by simp
    then show ?thesis by simp
  next
    case False
    with insert_absent_returns[OF en None, of v] ins
    have "d_map c' = (d_map c1)(key \<mapsto> (v, fresh_node (d_queue c1)))" by auto
    then have "cache_size c' = card (insert key (dom (d_map c1)))" by (simp add: cache_size_def)
    also have "\<dots> \<le> Suc (card (dom (d_map c1)))" using fin by (simp add: card_insert_if)
    finally show ?thesis by (simp add: cache_size_def)
  qed
next
  case (Some entry)
  then obtain old n where f: "d_map c1 key = Some (old, n)" by (cases entry) simp
  from insert_present[OF inv1 en f, of t v] ins
  have "d_map c' = (d_map c1)(key \<mapsto> (v, n))" by auto
  moreover from f have "insert key (dom (d_map c1)) = dom (d_map c1)" by auto
  ultimately have "cache_size c' = cache_size c1" by (simp add: cache_size_def)
  then show ?thesis by simp
qed

subsection \<open>Unfolding the operations on a concrete cache\<close>

lemmas eval_defs = mkCache_def cache_insert_def enforceHighWatermark_def cache_size_def
     push_back_def pop_back_def last_node_def QueueProctor_destroy_def fresh_node_def
     splice_to_end_def evictLoop.simps front_def evictItem_def list_erase_def
     tryGetValue_def size_after_def keys_after_def evicted_after_def

subsection \<open>The order of evictions\<close>

lemma evictN_evictions:
  "evictions (evictN n c) = evictions c @
     map (\<lambda>e. (snd e, fst (the (d_map c (snd e))), d_postEvictionCallback c)) (take n (d_queue c))"
  by (simp add: evictN_def)

lemma evictN_evicted_keys:
  "map fst (evictions (evictN n c)) = map fst (evictions c) @ map snd (take n (d_queue c))"
  by (simp add: evictN_evictions comp_def)

lemma fifo_insert:
  assumes inv: "cache_inv c" and fresh: "key \<notin> snd ` set (d_queue c)"
  shows "\<exists>c'. cache_insert False key v c = Inr (Returned, c') \<and> cache_inv c' \<and>
           d_evictionPolicy c' = d_evictionPolicy c \<and>
           map fst (evictions c') @ queue_keys c' =
             map fst (evictions c) @ queue_keys c @ [key] \<and>
           snd ` set (d_queue c') \<subseteq> insert key (snd ` set (d_queue c))"
proof -
  let ?n = "if length (d_queue c) < d_highWatermark c then 0
            else evict_count (d_lowWatermark c) (length (d_queue c))"
  let ?c1 = "evictN ?n c"
  let ?c' = "?c1\<lparr>d_queue := d_queue ?c1 @ [(fresh_node (d_queue ?c1), key)],
                   d_map := (d_map ?c1)(key \<mapsto> (v, fresh_node (d_queue ?c1)))\<rparr>"
  have en: "enforceHighWatermark c = Inr ?c1" using inv by (rule enforce_closed)
  have inv1: "cache_inv ?c1" using inv by (rule inv_evictN)
  from inv fresh have "d_map c key = None" by (auto simp: cache_inv_def)
  then have ab1: "d_map ?c1 key = None" by (rule evictN_absent)
  have ins: "cache_insert False key v c = Inr (Returned, ?c')"
    using en ab1 by (rule insert_absent_returns)
  have inv': "cache_inv ?c'" using inv1 ab1 by (rule inv_push_back)
  have pol: "d_evictionPolicy ?c' = d_evictionPolicy c" by simp
  have "map fst (evictions ?c') @ queue_keys ?c' =
        map fst (evictions c) @ (map snd (take ?n (d_queue c)) @ map snd (drop ?n (d_queue c))) @ [key]"
    by (simp add: evictN_evicted_keys queue_keys_def del: append_take_drop_id)
  also have "map snd (take ?n (d_queue c)) @ map snd (drop ?n (d_queue c)) = queue_keys c"
    by (simp add: queue_keys_def map_append[symmetric] del: map_append)
  finally have ord: "map fst (evictions ?c') @ queue_keys ?c' =
             map fst (evictions c) @ queue_keys c @ [key]" .
  have sub: "snd ` set (d_queue ?c') \<subseteq> insert key (snd ` set (d_queue c))"
    by (auto dest: in_set_dropD)
  from ins inv' pol ord sub show ?thesis by blast
qed

lemma fifo_tryGetValue:
  "d_evictionPolicy c = e_FIFO \<Longrightarrow> \<exists>rc out. tryGetValue key m c = Inr (rc, out, c)"
  by (simp add: tryGetValue_def split: option.split)

lemma pop_order:
  assumes inv: "cache_inv c"
  shows "\<exists>rc c'. popFront c = Inr (rc, c') \<and> cache_inv c' \<and>
           d_evictionPolicy c' = d_evictionPolicy c \<and>
           map fst (evictions c') @ queue_keys c' = map fst (evictions c) @ queue_keys c \<and>
           snd ` set (d_queue c') \<subseteq> snd ` set (d_queue c)"
proof (cases "d_queue c")
  case Nil
  with inv show ?thesis by (simp add: popFront_def inv_size)
next
  case (Cons e q')
  obtain i k where e: "e = (i, k)" by (cases e)
  with Cons have q: "d_queue c = (i, k) # q'" by simp
  from inv_front(1)[OF inv q] obtain v where f: "d_map c k = Some (v, i)" ..
  have fq: "filter (\<lambda>e. snd e \<noteq> k) (d_queue c) = q'" using inv q by (rule inv_front(2))
  let ?c' = "c\<lparr>d_queue := q', d_map := (d_map c)(k := None),
                evictions := evictions c @ [(k, v, d_postEvictionCallback c)]\<rparr>"
  have ev: "evictItem (k, (v, i)) c = Inr ?c'" using evictItem_inv(1)[OF inv f] by (simp add: fq)
  have inv': "cache_inv ?c'" using evictItem_inv(2)[OF inv f] by (simp add: fq)
  have fr: "front (d_queue c) = Inr k" by (simp add: front_def q)
  have p: "popFront c = Inr (0, ?c')"
    by (simp add: popFront_def inv_size[OF inv] fr f ev) (simp add: q)
  have ord: "map fst (evictions ?c') @ queue_keys ?c' = map fst (evictions c) @ queue_keys c"
    by (simp add: queue_keys_def q)
  have sub: "snd ` set (d_queue ?c') \<subseteq> snd ` set (d_queue c)" by (auto simp: q)
  from p inv' ord sub show ?thesis by simp
qed

lemma fifo_run:
  assumes "cache_inv c" "d_evictionPolicy c = e_FIFO" "inserts_reads_pops calls"
    "distinct (inserted_keys calls)" "set (inserted_keys calls) \<inter> snd ` set (d_queue c) = {}"
  shows "\<exists>c'. run calls c = Inr c' \<and>
           map fst (evictions c') @ queue_keys c' =
             map fst (evictions c) @ queue_keys c @ inserted_keys calls"
  using assms
proof (induction calls arbitrary: c)
  case Nil
  then show ?case by simp
next
  case (Cons x xs)
  note inv = \<open>cache_inv c\<close> and pol = \<open>d_evictionPolicy c = e_FIFO\<close>
  show ?case
  proof (cases x)
    case (Insert key v)
    from Cons.prems Insert have fresh: "key \<notin> snd ` set (d_queue c)" by auto
    from fifo_insert[OF inv fresh, of v] obtain c1 where
      ins: "cache_insert False key v c = Inr (Returned, c1)" and inv1: "cache_inv c1"
      and pol1: "d_evictionPolicy c1 = d_evictionPolicy c"
      and ord: "map fst (evictions c1) @ queue_keys c1 = map fst (evictions c) @ queue_keys c @ [key]"
      and sub: "snd ` set (d_queue c1) \<subseteq> insert key (snd ` set (d_queue c))" by blast
    from Cons.prems Insert have rest: "inserts_reads_pops xs" "distinct (inserted_keys xs)"
      and nk: "key \<notin> set (inserted_keys xs)"
      and dj: "set (inserted_keys xs) \<inter> snd ` set (d_queue c) = {}" by auto
    from sub nk dj have dj1: "set (inserted_keys xs) \<inter> snd ` set (d_queue c1) = {}" by blast
    from pol pol1 have p1: "d_evictionPolicy c1 = e_FIFO" by simp
    from Cons.IH[OF inv1 p1 rest dj1] obtain c' where
      r: "run xs c1 = Inr c'" and o: "map fst (evictions c') @ queue_keys c' =
             map fst (evictions c1) @ queue_keys c1 @ inserted_keys xs" by blast
    from o ord have "map fst (evictions c') @ queue_keys c' =
             map fst (evictions c) @ queue_keys c @ inserted_keys (x # xs)"
      by (simp add: Insert append_assoc[symmetric] del: append_assoc)
    with r ins Insert show ?thesis by simp
  next
    case (InsertThrowing key v)
    with Cons.prems show ?thesis by simp
  next
    case (TryGetValue key m)
    from fifo_tryGetValue[OF pol, of key m] have s: "step x c = Inr c" by (auto simp: TryGetValue)
    from Cons.prems TryGetValue have rest: "inserts_reads_pops xs" "distinct (inserted_keys xs)"
      "set (inserted_keys xs) \<inter> snd ` set (d_queue c) = {}" by auto
    from Cons.IH[OF inv pol rest] s TryGetValue show ?thesis by simp
  next
    case PopFront
    from pop_order[OF inv] obtain rc c1 where
      p: "popFront c = Inr (rc, c1)" and inv1: "cache_inv c1"
      and pol1: "d_evictionPolicy c1 = d_evictionPolicy c"
      and ord: "map fst (evictions c1) @ queue_keys c1 = map fst (evictions c) @ queue_keys c"
      and sub: "snd ` set (d_queue c1) \<subseteq> snd ` set (d_queue c)" by blast
    from Cons.prems PopFront have rest: "inserts_reads_pops xs" "distinct (inserted_keys xs)"
      and dj: "set (inserted_keys xs) \<inter> snd ` set (d_queue c) = {}" by auto
    from sub dj have dj1: "set (inserted_keys xs) \<inter> snd ` set (d_queue c1) = {}" by blast
    from pol pol1 have p1: "d_evictionPolicy c1 = e_FIFO" by simp
    from Cons.IH[OF inv1 p1 rest dj1] obtain c' where
      r: "run xs c1 = Inr c'" and o: "map fst (evictions c') @ queue_keys c' =
             map fst (evictions c1) @ queue_keys c1 @ inserted_keys xs" by blast
    from o ord have "map fst (evictions c') @ queue_keys c' =
             map fst (evictions c) @ queue_keys c @ inserted_keys (x # xs)"
      by (simp add: PopFront append_assoc[symmetric] del: append_assoc)
    with r p PopFront show ?thesis by simp
  next
    case (Erase key)
    with Cons.prems show ?thesis by simp
  next
    case (SetPostEvictionCallback cb)
    let ?c1 = "setPostEvictionCallback cb c"
    have inv1: "cache_inv ?c1" using inv by (simp add: setPostEvictionCallback_def cache_inv_def)
    have p1: "d_evictionPolicy ?c1 = e_FIFO" using pol by (simp add: setPostEvictionCallback_def)
    from Cons.prems SetPostEvictionCallback have rest: "inserts_reads_pops xs"
      "distinct (inserted_keys xs)"
      "set (inserted_keys xs) \<inter> snd ` set (d_queue ?c1) = {}"
      by (auto simp: setPostEvictionCallback_def)
    from Cons.IH[OF inv1 p1 rest] SetPostEvictionCallback show ?thesis
      by (simp add: setPostEvictionCallback_def queue_keys_def)
  next
    case Clear
    with Cons.prems show ?thesis by simp
  qed
qed

subsection \<open>An insert that evicts the key it inserts\<close>

lemma evict_count_full:
  "1 \<le> low \<Longrightarrow> low \<le> len \<Longrightarrow> evict_count low len = Suc len - low"
  by (auto simp: evict_count_def min_def)

lemma insert_after_own_eviction:
  assumes inv: "cache_inv c" and lo: "1 \<le> d_lowWatermark c"
    and lh: "d_lowWatermark c \<le> d_highWatermark c"
    and full: "d_highWatermark c \<le> cache_size c"
    and f: "d_map c key = Some (old, n)"
    and early: "key \<in> snd ` set (take (Suc (cache_size c) - d_lowWatermark c) (d_queue c))"
  shows "\<exists>c'. cache_insert False key v c = Inr (Returned, c') \<and>
           (key, old, d_postEvictionCallback c) \<in> set (drop (length (evictions c)) (evictions c')) \<and>
           length (evictions c') = length (evictions c) + (Suc (cache_size c) - d_lowWatermark c) \<and>
           d_queue c' = drop (Suc (cache_size c) - d_lowWatermark c) (d_queue c) @
              [(fresh_node (drop (Suc (cache_size c) - d_lowWatermark c) (d_queue c)), key)] \<and>
           d_map c' key =
              Some (v, fresh_node (drop (Suc (cache_size c) - d_lowWatermark c) (d_queue c)))"
proof -
  have sz: "cache_size c = length (d_queue c)" using inv by (rule inv_size)
  let ?N = "Suc (cache_size c) - d_lowWatermark c"
  let ?c1 = "evictN ?N c"
  from lh full sz have ll: "d_lowWatermark c \<le> length (d_queue c)" by simp
  have cnt: "evict_count (d_lowWatermark c) (length (d_queue c)) = ?N"
    using evict_count_full[OF lo ll] sz by simp
  have en: "enforceHighWatermark c = Inr ?c1"
    using enforce_closed[OF inv] full sz cnt by simp
  from early have ab1: "d_map ?c1 key = None" by (simp add: restrict_map_def)
  let ?c' = "?c1\<lparr>d_queue := d_queue ?c1 @ [(fresh_node (d_queue ?c1), key)],
                   d_map := (d_map ?c1)(key \<mapsto> (v, fresh_node (d_queue ?c1)))\<rparr>"
  have ins: "cache_insert False key v c = Inr (Returned, ?c')"
    using en ab1 by (rule insert_absent_returns)
  from early obtain e where e: "e \<in> set (take ?N (d_queue c))" "snd e = key" by auto
  have Nle: "?N \<le> length (d_queue c)" using lo sz by simp
  have evs: "evictions ?c' = evictions c @
     map (\<lambda>e. (snd e, fst (the (d_map c (snd e))), d_postEvictionCallback c)) (take ?N (d_queue c))"
    by (simp add: evictN_evictions)
  have mem: "(key, old, d_postEvictionCallback c) \<in> set (drop (length (evictions c)) (evictions ?c'))"
  proof -
    from e f have "(key, old, d_postEvictionCallback c) \<in>
       set (map (\<lambda>e. (snd e, fst (the (d_map c (snd e))), d_postEvictionCallback c))
                (take ?N (d_queue c)))" by force
    then show ?thesis unfolding evs by simp
  qed
  have len: "length (evictions ?c') = length (evictions c) + ?N"
    unfolding evs using Nle by simp
  have q: "d_queue ?c' = drop ?N (d_queue c) @ [(fresh_node (drop ?N (d_queue c)), key)]" by simp
  have m: "d_map ?c' key = Some (v, fresh_node (drop ?N (d_queue c)))" by simp
  from ins mem len q m show ?thesis by blast
qed

section \<open>The claims\<close>

subsection \<open>C1: the usage scenario\<close>

text \<open>
  C1 ends with the key set \<open>{2, 3, 4}\<close>. The second insert of key 1 moves key 1 to the
  back of the queue, behind key 2, so the insert of key 4 evicts the keys 0 and 2 and the
  cache ends with the keys \<open>{1, 3, 4}\<close>.
\<close>

theorem usage_scenario_counterexample:
  "keys_after [Insert 0 ''Alex'', Insert 1 ''John'', Insert 2 ''Rob'', Insert 1 ''John'',
               Insert 3 ''Steve'', Insert 4 ''Tim'']
      (mkCache e_LRU 3 4 :: (nat, string, nat) Cache) = Some {1, 3, 4} \<and>
   keys_after [Insert 0 ''Alex'', Insert 1 ''John'', Insert 2 ''Rob'', Insert 1 ''John'',
               Insert 3 ''Steve'', Insert 4 ''Tim'']
      (mkCache e_LRU 3 4 :: (nat, string, nat) Cache) \<noteq> Some {2, 3, 4}"
  by (simp add: eval_defs eval_nat_numeral) auto

text \<open>
  C1, amended. Starting from an empty LRU cache with low watermark 3 and high watermark 4:
  after the inserts of the keys 0, 1, 2 \<^verbatim>\<open>size()\<close> is 3; after key 1 is inserted again it
  is 3; after key 3 is inserted it is 4 and nothing was evicted; the insert of key 4
  evicts the keys 0 and 2, in this order, and returns with \<^verbatim>\<open>size()\<close> 3 and the keys
  \<open>{1, 3, 4}\<close>.
\<close>

theorem usage_scenario:
  "size_after [Insert 0 a, Insert 1 b, Insert 2 c] (mkCache e_LRU 3 4 :: (nat, 'v, 'cb) Cache)
     = Some 3 \<and>
   size_after [Insert 0 a, Insert 1 b, Insert 2 c, Insert 1 b']
      (mkCache e_LRU 3 4 :: (nat, 'v, 'cb) Cache) = Some 3 \<and>
   size_after [Insert 0 a, Insert 1 b, Insert 2 c, Insert 1 b', Insert 3 d]
      (mkCache e_LRU 3 4 :: (nat, 'v, 'cb) Cache) = Some 4 \<and>
   evicted_after [Insert 0 a, Insert 1 b, Insert 2 c, Insert 1 b', Insert 3 d]
      (mkCache e_LRU 3 4 :: (nat, 'v, 'cb) Cache) = Some [] \<and>
   size_after [Insert 0 a, Insert 1 b, Insert 2 c, Insert 1 b', Insert 3 d, Insert 4 e]
      (mkCache e_LRU 3 4 :: (nat, 'v, 'cb) Cache) = Some 3 \<and>
   evicted_after [Insert 0 a, Insert 1 b, Insert 2 c, Insert 1 b', Insert 3 d, Insert 4 e]
      (mkCache e_LRU 3 4 :: (nat, 'v, 'cb) Cache) = Some [0, 2] \<and>
   keys_after [Insert 0 a, Insert 1 b, Insert 2 c, Insert 1 b', Insert 3 d, Insert 4 e]
      (mkCache e_LRU 3 4 :: (nat, 'v, 'cb) Cache) = Some {1, 3, 4}"
  by (simp add: eval_defs eval_nat_numeral) auto

subsection \<open>C2: the watermark law\<close>

text \<open>
  C2 says that after any \<^verbatim>\<open>insert\<close> returns \<^verbatim>\<open>size() < highWatermark\<close>, except when both
  watermarks are 1. The code checks the high watermark before it adds the item, so an
  insert into a cache of \<open>highWatermark - 1\<close> items returns with \<open>highWatermark\<close> items:
  with watermarks 3 and 4, the insert of a fourth key returns with \<^verbatim>\<open>size() == 4\<close>, as
  the usage example of the header asserts.
\<close>

theorem insert_size_below_high_counterexample:
  "run [Insert 0 ''Alex'', Insert 1 ''John'', Insert 2 ''Rob''] (mkCache e_LRU 3 4)
     = Inr (\<lparr>d_map = [0 \<mapsto> (''Alex'', 1), 1 \<mapsto> (''John'', 2), 2 \<mapsto> (''Rob'', 3)],
             d_queue = [(1, 0), (2, 1), (3, 2)],
             d_evictionPolicy = e_LRU, d_lowWatermark = 3, d_highWatermark = 4,
             d_postEvictionCallback = None, evictions = []\<rparr> :: (nat, string, nat) Cache) \<and>
   cache_insert False 3 ''Steve''
      (\<lparr>d_map = [0 \<mapsto> (''Alex'', 1), 1 \<mapsto> (''John'', 2), 2 \<mapsto> (''Rob'', 3)],
        d_queue = [(1, 0), (2, 1), (3, 2)],
        d_evictionPolicy = e_LRU, d_lowWatermark = 3, d_highWatermark = 4,
        d_postEvictionCallback = None, evictions = []\<rparr> :: (nat, string, nat) Cache)
     = Inr (Returned,
            \<lparr>d_map = [0 \<mapsto> (''Alex'', 1), 1 \<mapsto> (''John'', 2), 2 \<mapsto> (''Rob'', 3),
                      3 \<mapsto> (''Steve'', 4)],
             d_queue = [(1, 0), (2, 1), (3, 2), (4, 3)],
             d_evictionPolicy = e_LRU, d_lowWatermark = 3, d_highWatermark = 4,
             d_postEvictionCallback = None, evictions = []\<rparr>) \<and>
   \<not> (cache_size
         (\<lparr>d_map = [0 \<mapsto> (''Alex'', 1), 1 \<mapsto> (''John'', 2), 2 \<mapsto> (''Rob'', 3),
                      3 \<mapsto> (''Steve'', 4)],
             d_queue = [(1, 0), (2, 1), (3, 2), (4, 3)],
             d_evictionPolicy = e_LRU, d_lowWatermark = 3, d_highWatermark = 4,
             d_postEvictionCallback = None, evictions = []\<rparr> :: (nat, string, nat) Cache)
        < 4 \<or> (4 = (1::nat) \<and> 3 = (1::nat)))"
  by (simp add: mkCache_def cache_insert_def enforceHighWatermark_def cache_size_def
     push_back_def last_node_def QueueProctor_destroy_def fresh_node_def eval_nat_numeral)

text \<open>
  C2, amended. In every state reached from a cache constructed with
  \<open>1 \<le> lowWatermark \<le> highWatermark\<close>, a call of \<^verbatim>\<open>insert\<close> does not abort, and when it
  ends (returning, or throwing from \<^verbatim>\<open>emplace\<close>) \<^verbatim>\<open>size() \<le> highWatermark\<close>. Its
  enforcement pass leaves the cache untouched when \<^verbatim>\<open>size() < highWatermark\<close>; otherwise
  it does not stop before \<^verbatim>\<open>size() < lowWatermark\<close>: it stops at
  \<^verbatim>\<open>size() == lowWatermark - 1\<close>.
\<close>

theorem insert_keeps_size_within_high_watermark:
  assumes reach: "run calls (mkCache policy low high) = Inr c"
    and wm: "1 \<le> low" "low \<le> high"
  shows "\<exists>c1 r c'. enforceHighWatermark c = Inr c1 \<and>
           cache_insert emplaceThrows key valuePtr c = Inr (r, c') \<and>
           cache_size c' \<le> d_highWatermark c' \<and>
           d_highWatermark c' = high \<and> d_lowWatermark c' = low \<and>
           (cache_size c < high \<longrightarrow> c1 = c) \<and>
           (high \<le> cache_size c \<longrightarrow> cache_size c1 < low \<and> cache_size c1 = low - 1)"
proof -
  from reach have inv: "cache_inv c" and lo: "d_lowWatermark c = low" and hi: "d_highWatermark c = high"
    by (rule reach_inv)+
  have sz: "cache_size c = length (d_queue c)" using inv by (rule inv_size)
  let ?n = "if length (d_queue c) < d_highWatermark c then 0
            else evict_count (d_lowWatermark c) (length (d_queue c))"
  let ?c1 = "evictN ?n c"
  have en: "enforceHighWatermark c = Inr ?c1" using inv by (rule enforce_closed)
  have inv1: "cache_inv ?c1" using inv by (rule inv_evictN)
  have sz1: "cache_size ?c1 = length (d_queue c) - ?n" using inv_size[OF inv1] by simp
  from insert_inv[OF inv, of emplaceThrows key valuePtr]
  obtain r c' where ins: "cache_insert emplaceThrows key valuePtr c = Inr (r, c')"
    and wm': "d_lowWatermark c' = low" "d_highWatermark c' = high"
    using lo hi by auto
  have le: "cache_size c' \<le> Suc (cache_size ?c1)" using inv1 en ins by (rule insert_size_le)
  have below: "cache_size c < high \<longrightarrow> ?c1 = c"
    using sz hi by (simp add: evictN_0)
  have above: "high \<le> cache_size c \<longrightarrow> cache_size ?c1 < low \<and> cache_size ?c1 = low - 1"
  proof
    assume h: "high \<le> cache_size c"
    with wm sz have "low \<le> length (d_queue c)" by simp
    with wm(1) have "length (d_queue c) - evict_count low (length (d_queue c)) = low - 1"
      by (rule evict_count_high)
    with h sz hi lo sz1 have "cache_size ?c1 = low - 1" by simp
    with wm(1) show "cache_size ?c1 < low \<and> cache_size ?c1 = low - 1" by simp
  qed
  have bound: "cache_size c' \<le> d_highWatermark c'"
  proof (cases "cache_size c < high")
    case True
    with below have "cache_size ?c1 < high" by simp
    with le wm' show ?thesis by simp
  next
    case False
    with above have "cache_size ?c1 = low - 1" by simp
    with le wm wm' show ?thesis by simp
  qed
  from en ins bound wm' below above show ?thesis by blast
qed

theorem insert_keeps_size_within_high_watermark_witness:
  "run [Insert 0 ''Alex'', Insert 1 ''John''] (mkCache e_LRU 2 2)
     = Inr (\<lparr>d_map = [0 \<mapsto> (''Alex'', 1), 1 \<mapsto> (''John'', 2)],
             d_queue = [(1, 0), (2, 1)],
             d_evictionPolicy = e_LRU, d_lowWatermark = 2, d_highWatermark = 2,
             d_postEvictionCallback = None, evictions = []\<rparr> :: (nat, string, nat) Cache) \<and>
   (1::nat) \<le> 2 \<and> (2::nat) \<le> 2 \<and>
   enforceHighWatermark
      (\<lparr>d_map = [0 \<mapsto> (''Alex'', 1), 1 \<mapsto> (''John'', 2)],
        d_queue = [(1, 0), (2, 1)],
        d_evictionPolicy = e_LRU, d_lowWatermark = 2, d_highWatermark = 2,
        d_postEvictionCallback = None, evictions = []\<rparr> :: (nat, string, nat) Cache)
     = Inr \<lparr>d_map = [1 \<mapsto> (''John'', 2)],
            d_queue = [(2, 1)],
            d_evictionPolicy = e_LRU, d_lowWatermark = 2, d_highWatermark = 2,
            d_postEvictionCallback = None, evictions = [(0, ''Alex'', None)]\<rparr> \<and>
   cache_insert False 5 ''Tim''
      (\<lparr>d_map = [0 \<mapsto> (''Alex'', 1), 1 \<mapsto> (''John'', 2)],
        d_queue = [(1, 0), (2, 1)],
        d_evictionPolicy = e_LRU, d_lowWatermark = 2, d_highWatermark = 2,
        d_postEvictionCallback = None, evictions = []\<rparr> :: (nat, string, nat) Cache)
     = Inr (Returned,
          \<lparr>d_map = [1 \<mapsto> (''John'', 2), 5 \<mapsto> (''Tim'', 3)],
            d_queue = [(2, 1), (3, 5)],
            d_evictionPolicy = e_LRU, d_lowWatermark = 2, d_highWatermark = 2,
            d_postEvictionCallback = None, evictions = [(0, ''Alex'', None)]\<rparr>) \<and>
   cache_size
      (\<lparr>d_map = [1 \<mapsto> (''John'', 2), 5 \<mapsto> (''Tim'', 3)],
        d_queue = [(2, 1), (3, 5)],
        d_evictionPolicy = e_LRU, d_lowWatermark = 2, d_highWatermark = 2,
        d_postEvictionCallback = None, evictions = [(0, ''Alex'', None)]\<rparr>
        :: (nat, string, nat) Cache) \<le> 2 \<and>
   cache_size
      (\<lparr>d_map = [1 \<mapsto> (''John'', 2)],
        d_queue = [(2, 1)],
        d_evictionPolicy = e_LRU, d_lowWatermark = 2, d_highWatermark = 2,
        d_postEvictionCallback = None, evictions = [(0, ''Alex'', None)]\<rparr>
        :: (nat, string, nat) Cache) = 2 - 1"
proof -
  let ?calls = "[Insert 0 ''Alex'', Insert 1 ''John''] :: (nat, string, nat) call list"
  let ?C = "\<lparr>d_map = [0 \<mapsto> (''Alex'', 1), 1 \<mapsto> (''John'', 2)],
            d_queue = [(1, 0), (2, 1)],
            d_evictionPolicy = e_LRU, d_lowWatermark = 2, d_highWatermark = 2,
            d_postEvictionCallback = None, evictions = []\<rparr> :: (nat, string, nat) Cache"
  let ?C1 = "\<lparr>d_map = [1 \<mapsto> (''John'', 2)],
            d_queue = [(2, 1)],
            d_evictionPolicy = e_LRU, d_lowWatermark = 2, d_highWatermark = 2,
            d_postEvictionCallback = None, evictions = [(0, ''Alex'', None)]\<rparr>
            :: (nat, string, nat) Cache"
  let ?C' = "\<lparr>d_map = [1 \<mapsto> (''John'', 2), 5 \<mapsto> (''Tim'', 3)],
            d_queue = [(2, 1), (3, 5)],
            d_evictionPolicy = e_LRU, d_lowWatermark = 2, d_highWatermark = 2,
            d_postEvictionCallback = None, evictions = [(0, ''Alex'', None)]\<rparr>
            :: (nat, string, nat) Cache"
  have r: "run ?calls (mkCache e_LRU 2 2) = Inr ?C"
    by (simp add: mkCache_def cache_insert_def enforceHighWatermark_def cache_size_def
     push_back_def last_node_def QueueProctor_destroy_def fresh_node_def eval_nat_numeral)
  have wm: "(1::nat) \<le> 2" "(2::nat) \<le> 2" by simp_all
  have e: "enforceHighWatermark ?C = Inr ?C1"
    by (simp add: enforceHighWatermark_def cache_size_def evictLoop.simps front_def
         evictItem_def list_erase_def eval_nat_numeral)
  have i: "cache_insert False 5 ''Tim'' ?C = Inr (Returned, ?C')"
    by (simp add: cache_insert_def enforceHighWatermark_def cache_size_def evictLoop.simps
         front_def evictItem_def list_erase_def push_back_def last_node_def
         QueueProctor_destroy_def fresh_node_def eval_nat_numeral)
  have full: "2 \<le> cache_size ?C" by (simp add: cache_size_def)
  from insert_keeps_size_within_high_watermark[OF r wm, of False 5 "''Tim''"] e i full
  have "cache_size ?C' \<le> 2 \<and> cache_size ?C1 = 2 - 1" by simp
  with r wm e i show ?thesis by simp
qed

subsection \<open>C3: the map and the queue are in bijection\<close>

text \<open>
  C3. Every sequence of calls of \<^verbatim>\<open>insert\<close> (whether or not its \<^verbatim>\<open>emplace\<close> throws),
  \<^verbatim>\<open>tryGetValue\<close>, \<^verbatim>\<open>popFront\<close>, \<^verbatim>\<open>erase\<close>, \<^verbatim>\<open>clear\<close> and \<^verbatim>\<open>setPostEvictionCallback\<close> on a
  freshly constructed cache runs without aborting, and in the state it reaches the map
  and the eviction queue are in bijection: every key of the map is held at exactly one
  position of the queue, the iterator stored with a key denotes the node holding that
  key, every queue entry is a key of the map, the nodes are distinct, and \<^verbatim>\<open>size()\<close>
  equals both the number of keys of the map and the length of the queue.
\<close>

theorem map_queue_bijection:
  "\<exists>c. run calls (mkCache policy low high) = Inr c \<and>
     (\<forall>key \<in> dom (d_map c). \<exists>!i. i < length (d_queue c) \<and> snd (d_queue c ! i) = key) \<and>
     (\<forall>key v n. d_map c key = Some (v, n) \<longrightarrow> (n, key) \<in> set (d_queue c)) \<and>
     (\<forall>e \<in> set (d_queue c). snd e \<in> dom (d_map c)) \<and>
     distinct (map fst (d_queue c)) \<and>
     cache_size c = card (dom (d_map c)) \<and> cache_size c = length (d_queue c)"
proof -
  from run_inv[OF inv_mkCache, of calls policy low high]
  obtain c where r: "run calls (mkCache policy low high) = Inr c" and inv: "cache_inv c" by blast
  have a: "\<forall>key \<in> dom (d_map c). \<exists>!i. i < length (d_queue c) \<and> snd (d_queue c ! i) = key"
    using inv_positions[OF inv] by blast
  have b: "\<forall>key v n. d_map c key = Some (v, n) \<longrightarrow> (n, key) \<in> set (d_queue c)"
    using inv by (blast intro: inv_lookup)
  have c: "\<forall>e \<in> set (d_queue c). snd e \<in> dom (d_map c)"
    using inv by (simp add: cache_inv_def)
  have d: "distinct (map fst (d_queue c))" using inv by (simp add: cache_inv_def)
  have e: "cache_size c = length (d_queue c)" using inv by (rule inv_size)
  from r a b c d e show ?thesis by (simp add: cache_size_def)
qed

theorem map_queue_bijection_witness:
  "run [Insert 0 ''Alex'', Insert 1 ''John'', TryGetValue 0 True, Insert 2 ''Rob'', Erase 1,
        InsertThrowing 3 ''Steve'', SetPostEvictionCallback (Some 7)]
       (mkCache e_LRU 2 3)
     = Inr (\<lparr>d_map = [0 \<mapsto> (''Alex'', 1), 2 \<mapsto> (''Rob'', 3)],
             d_queue = [(1, 0), (3, 2)],
             d_evictionPolicy = e_LRU, d_lowWatermark = 2, d_highWatermark = 3,
             d_postEvictionCallback = Some 7,
             evictions = [(1, ''John'', None)]\<rparr> :: (nat, string, nat) Cache) \<and>
   0 \<in> dom (d_map (\<lparr>d_map = [0 \<mapsto> (''Alex'', 1), 2 \<mapsto> (''Rob'', 3)],
             d_queue = [(1, 0), (3, 2)],
             d_evictionPolicy = e_LRU, d_lowWatermark = 2, d_highWatermark = 3,
             d_postEvictionCallback = Some 7,
             evictions = [(1, ''John'', None)]\<rparr> :: (nat, string, nat) Cache)) \<and>
   (3, 2) \<in> set (d_queue (\<lparr>d_map = [0 \<mapsto> (''Alex'', 1), 2 \<mapsto> (''Rob'', 3)],
             d_queue = [(1, 0), (3, 2)],
             d_evictionPolicy = e_LRU, d_lowWatermark = 2, d_highWatermark = 3,
             d_postEvictionCallback = Some 7,
             evictions = [(1, ''John'', None)]\<rparr> :: (nat, string, nat) Cache)) \<and>
   cache_size (\<lparr>d_map = [0 \<mapsto> (''Alex'', 1), 2 \<mapsto> (''Rob'', 3)],
             d_queue = [(1, 0), (3, 2)],
             d_evictionPolicy = e_LRU, d_lowWatermark = 2, d_highWatermark = 3,
             d_postEvictionCallback = Some 7,
             evictions = [(1, ''John'', None)]\<rparr> :: (nat, string, nat) Cache) =
   length [(1::nat, 0::nat), (3, 2)]"
proof -
  let ?calls = "[Insert 0 ''Alex'', Insert 1 ''John'', TryGetValue 0 True, Insert 2 ''Rob'', Erase 1,
        InsertThrowing 3 ''Steve'', SetPostEvictionCallback (Some 7)] :: (nat, string, nat) call list"
  let ?C = "\<lparr>d_map = [0 \<mapsto> (''Alex'', 1), 2 \<mapsto> (''Rob'', 3)],
            d_queue = [(1, 0), (3, 2)],
            d_evictionPolicy = e_LRU, d_lowWatermark = 2, d_highWatermark = 3,
            d_postEvictionCallback = Some 7,
            evictions = [(1, ''John'', None)]\<rparr> :: (nat, string, nat) Cache"
  have r: "run ?calls (mkCache e_LRU 2 3) = Inr ?C"
    by (simp add: mkCache_def cache_insert_def enforceHighWatermark_def cache_size_def
     push_back_def pop_back_def last_node_def QueueProctor_destroy_def fresh_node_def splice_to_end_def
     tryGetValue_def erase_def evictItem_def list_erase_def setPostEvictionCallback_def front_def
     eval_nat_numeral)
  from map_queue_bijection[of ?calls e_LRU 2 3] r
  have b: "(\<forall>key v n. d_map ?C key = Some (v, n) \<longrightarrow> (n, key) \<in> set (d_queue ?C)) \<and>
           cache_size ?C = length (d_queue ?C)"
    by simp
  have k: "0 \<in> dom (d_map ?C)" and f: "d_map ?C 2 = Some (''Rob'', 3)" by simp_all
  from b f have m: "(3, 2) \<in> set (d_queue ?C)" by blast
  from b have l: "cache_size ?C = length [(1::nat, 0::nat), (3, 2)]" by simp
  from r k m l show ?thesis by blast
qed

subsection \<open>C4: the LRU order\<close>

text \<open>
  C4. In an LRU cache with low watermark 2 and high watermark 3, after the inserts of
  three distinct keys \<open>A\<close>, \<open>B\<close>, \<open>C\<close> and a call of \<^verbatim>\<open>tryGetValue\<close> for \<open>A\<close> with
  \<^verbatim>\<open>modifyEvictionQueue\<close> true, nothing was evicted; the insert of a fourth key \<open>D\<close>
  then evicts \<open>B\<close> first (and \<open>C\<close> after it, to get below the low watermark), and \<open>A\<close>
  stays in the cache. Without the read, the same insert evicts \<open>A\<close> and \<open>B\<close>.
\<close>

theorem lru_read_protects_key:
  assumes "distinct [A, B, C, D]"
  shows "evicted_after [Insert A a, Insert B b, Insert C c, TryGetValue A True]
            (mkCache e_LRU 2 3 :: ('k, 'v, 'cb) Cache) = Some [] \<and>
         evicted_after [Insert A a, Insert B b, Insert C c, TryGetValue A True, Insert D d]
            (mkCache e_LRU 2 3 :: ('k, 'v, 'cb) Cache) = Some [B, C] \<and>
         keys_after [Insert A a, Insert B b, Insert C c, TryGetValue A True, Insert D d]
            (mkCache e_LRU 2 3 :: ('k, 'v, 'cb) Cache) = Some {A, D} \<and>
         evicted_after [Insert A a, Insert B b, Insert C c, Insert D d]
            (mkCache e_LRU 2 3 :: ('k, 'v, 'cb) Cache) = Some [A, B]"
  using assms by (simp add: eval_defs eval_nat_numeral) auto

theorem lru_read_protects_key_witness:
  "distinct [0, 1, 2, 3::nat] \<and>
   evicted_after [Insert 0 ''a'', Insert 1 ''b'', Insert 2 ''c'', TryGetValue 0 True]
            (mkCache e_LRU 2 3 :: (nat, string, nat) Cache) = Some [] \<and>
   evicted_after [Insert 0 ''a'', Insert 1 ''b'', Insert 2 ''c'', TryGetValue 0 True, Insert 3 ''d'']
            (mkCache e_LRU 2 3 :: (nat, string, nat) Cache) = Some [1, 2] \<and>
   keys_after [Insert 0 ''a'', Insert 1 ''b'', Insert 2 ''c'', TryGetValue 0 True, Insert 3 ''d'']
            (mkCache e_LRU 2 3 :: (nat, string, nat) Cache) = Some {0, 3}"
proof -
  have d: "distinct [0, 1, 2, 3::nat]" by simp
  from lru_read_protects_key[OF d, of "''a''" "''b''" "''c''" "''d''"] d
  show ?thesis by blast
qed

subsection \<open>C5: the FIFO order\<close>

text \<open>
  C5. Take a FIFO cache, empty after construction, and any sequence of calls of
  \<^verbatim>\<open>insert\<close> with distinct keys, \<^verbatim>\<open>tryGetValue\<close> (any key, either value of
  \<^verbatim>\<open>modifyEvictionQueue\<close>), \<^verbatim>\<open>popFront\<close> and \<^verbatim>\<open>setPostEvictionCallback\<close>. The sequence
  does not abort, and the keys evicted so far (by the watermark enforcement or by
  \<^verbatim>\<open>popFront\<close>), in the order of their eviction, followed by the keys still queued, front
  first, are the inserted keys in the order of their insertion: entries leave in the
  order they came. Reads never reorder the queue: on a FIFO cache \<^verbatim>\<open>tryGetValue\<close>
  returns the cache as it was.
\<close>

theorem fifo_eviction_order:
  assumes "inserts_reads_pops (calls :: ('k, 'v, 'cb) call list)"
    and "distinct (inserted_keys calls)"
  shows "(\<exists>c. run calls (mkCache e_FIFO low high) = Inr c \<and>
              map fst (evictions c) @ queue_keys c = inserted_keys calls) \<and>
         (\<forall>c key modifyEvictionQueue. d_evictionPolicy c = e_FIFO \<longrightarrow>
              (\<exists>rc out. tryGetValue key modifyEvictionQueue (c :: ('k, 'v, 'cb) Cache)
                            = Inr (rc, out, c)))"
proof
  have e: "set (inserted_keys calls) \<inter> snd ` set (d_queue (mkCache e_FIFO low high :: ('k, 'v, 'cb) Cache)) = {}"
    by (simp add: mkCache_def)
  have p: "d_evictionPolicy (mkCache e_FIFO low high :: ('k, 'v, 'cb) Cache) = e_FIFO"
    by (simp add: mkCache_def)
  from fifo_run[OF inv_mkCache p assms e]
  show "\<exists>c. run calls (mkCache e_FIFO low high) = Inr c \<and>
              map fst (evictions c) @ queue_keys c = inserted_keys (calls :: ('k, 'v, 'cb) call list)"
    by (simp add: mkCache_def queue_keys_def)
next
  show "\<forall>c key modifyEvictionQueue. d_evictionPolicy c = e_FIFO \<longrightarrow>
              (\<exists>rc out. tryGetValue key modifyEvictionQueue (c :: ('k, 'v, 'cb) Cache)
                            = Inr (rc, out, c))"
    using fifo_tryGetValue by blast
qed

theorem fifo_eviction_order_witness:
  "inserts_reads_pops
     ([Insert 0 ''Alex'', Insert 1 ''John'', TryGetValue 0 True, Insert 2 ''Rob'',
       TryGetValue 1 True, Insert 3 ''Steve'', PopFront, TryGetValue 3 False]
      :: (nat, string, nat) call list) \<and>
   distinct (inserted_keys
     ([Insert 0 ''Alex'', Insert 1 ''John'', TryGetValue 0 True, Insert 2 ''Rob'',
       TryGetValue 1 True, Insert 3 ''Steve'', PopFront, TryGetValue 3 False]
      :: (nat, string, nat) call list)) \<and>
   run [Insert 0 ''Alex'', Insert 1 ''John'', TryGetValue 0 True, Insert 2 ''Rob'',
        TryGetValue 1 True, Insert 3 ''Steve'', PopFront, TryGetValue 3 False]
       (mkCache e_FIFO 2 3)
     = Inr (\<lparr>d_map = [3 \<mapsto> (''Steve'', 4)],
             d_queue = [(4, 3)],
             d_evictionPolicy = e_FIFO, d_lowWatermark = 2, d_highWatermark = 3,
             d_postEvictionCallback = None,
             evictions = [(0, ''Alex'', None), (1, ''John'', None), (2, ''Rob'', None)]\<rparr>
            :: (nat, string, nat) Cache) \<and>
   map fst [(0::nat, ''Alex'', None :: nat option), (1, ''John'', None), (2, ''Rob'', None)] @
   map snd [(4::nat, 3::nat)] = [0, 1, 2, 3]"
proof -
  let ?calls = "[Insert 0 ''Alex'', Insert 1 ''John'', TryGetValue 0 True, Insert 2 ''Rob'',
       TryGetValue 1 True, Insert 3 ''Steve'', PopFront, TryGetValue 3 False]
      :: (nat, string, nat) call list"
  let ?C = "\<lparr>d_map = [3 \<mapsto> (''Steve'', 4)],
             d_queue = [(4, 3)],
             d_evictionPolicy = e_FIFO, d_lowWatermark = 2, d_highWatermark = 3,
             d_postEvictionCallback = None,
             evictions = [(0, ''Alex'', None), (1, ''John'', None), (2, ''Rob'', None)]\<rparr>
            :: (nat, string, nat) Cache"
  have h1: "inserts_reads_pops ?calls" by simp
  have h2: "distinct (inserted_keys ?calls)" by simp
  have r: "run ?calls (mkCache e_FIFO 2 3) = Inr ?C"
    by (simp add: eval_defs popFront_def eval_nat_numeral)
  from fifo_eviction_order[OF h1 h2, of 2 3] r
  have "map fst (evictions ?C) @ queue_keys ?C = inserted_keys ?calls" by simp
  then have "map fst [(0::nat, ''Alex'', None :: nat option), (1, ''John'', None), (2, ''Rob'', None)] @
   map snd [(4::nat, 3::nat)] = [0, 1, 2, 3]" by (simp add: queue_keys_def)
  with h1 h2 r show ?thesis by blast
qed

subsection \<open>C6: clear\<close>

text \<open>
  C6. For every cache state, \<^verbatim>\<open>clear()\<close> leaves the cache empty: \<^verbatim>\<open>size()\<close> is 0, the map
  is empty and the queue is empty. It never invokes the post-eviction callback, however
  many items were present and whether or not a callback is set: the trace of evictions
  and with it the list of callback invocations are those of the state before.
\<close>

theorem clear_empties_without_callback:
  "cache_size (clear c) = 0 \<and> d_map (clear c) = Map.empty \<and> d_queue (clear c) = [] \<and>
   evictions (clear c) = evictions c \<and> callback_calls (clear c) = callback_calls c \<and>
   d_postEvictionCallback (clear c) = d_postEvictionCallback c"
  by (simp add: clear_def cache_size_def callback_calls_def)

subsection \<open>C7: a failed insert rolls the queue back\<close>

text \<open>
  C7. In a state reached from the constructor, let \<^verbatim>\<open>insert\<close> be called with a key that
  is not in the cache, and let \<^verbatim>\<open>d_map.emplace\<close> throw after the key was pushed onto the
  back of the queue. Then the proctor removes the pushed node again: the call leaves the
  cache exactly as the watermark enforcement left it, with no entry for the key in the
  map and none in the queue, and the map/queue bijection holds.
\<close>

theorem failed_insert_rolls_back:
  assumes reach: "run calls (mkCache policy low high) = Inr c"
    and absent: "d_map c key = None"
  shows "\<exists>c1. enforceHighWatermark c = Inr c1 \<and>
           cache_insert True key valuePtr c = Inr (ThrewBadAlloc, c1) \<and>
           d_map c1 key = None \<and> key \<notin> snd ` set (d_queue c1) \<and>
           cache_inv c1 \<and> cache_size c1 = length (d_queue c1)"
proof -
  from reach have inv: "cache_inv c" by (rule reach_inv(1))
  let ?n = "if length (d_queue c) < d_highWatermark c then 0
            else evict_count (d_lowWatermark c) (length (d_queue c))"
  have en: "enforceHighWatermark c = Inr (evictN ?n c)" using inv by (rule enforce_closed)
  have inv1: "cache_inv (evictN ?n c)" using inv by (rule inv_evictN)
  have ab1: "d_map (evictN ?n c) key = None" using absent by (rule evictN_absent)
  have th: "cache_insert True key valuePtr c = Inr (ThrewBadAlloc, evictN ?n c)"
    using en ab1 by (rule insert_absent_throws)
  have nq: "key \<notin> snd ` set (d_queue (evictN ?n c))" using inv1 ab1 by (rule inv_absent_queue)
  have sz: "cache_size (evictN ?n c) = length (d_queue (evictN ?n c))" using inv1 by (rule inv_size)
  from en th ab1 nq inv1 sz show ?thesis by blast
qed

theorem failed_insert_rolls_back_witness:
  "run [Insert 0 ''Alex'', Insert 1 ''John''] (mkCache e_LRU 2 2)
     = Inr (\<lparr>d_map = [0 \<mapsto> (''Alex'', 1), 1 \<mapsto> (''John'', 2)],
             d_queue = [(1, 0), (2, 1)],
             d_evictionPolicy = e_LRU, d_lowWatermark = 2, d_highWatermark = 2,
             d_postEvictionCallback = None, evictions = []\<rparr> :: (nat, string, nat) Cache) \<and>
   cache_insert True 5 ''Tim''
      (\<lparr>d_map = [0 \<mapsto> (''Alex'', 1), 1 \<mapsto> (''John'', 2)],
        d_queue = [(1, 0), (2, 1)],
        d_evictionPolicy = e_LRU, d_lowWatermark = 2, d_highWatermark = 2,
        d_postEvictionCallback = None, evictions = []\<rparr> :: (nat, string, nat) Cache)
     = Inr (ThrewBadAlloc,
          \<lparr>d_map = [1 \<mapsto> (''John'', 2)],
            d_queue = [(2, 1)],
            d_evictionPolicy = e_LRU, d_lowWatermark = 2, d_highWatermark = 2,
            d_postEvictionCallback = None, evictions = [(0, ''Alex'', None)]\<rparr>) \<and>
   cache_inv (\<lparr>d_map = [1 \<mapsto> (''John'', 2)],
            d_queue = [(2, 1)],
            d_evictionPolicy = e_LRU, d_lowWatermark = 2, d_highWatermark = 2,
            d_postEvictionCallback = None, evictions = [(0, ''Alex'', None)]\<rparr>
            :: (nat, string, nat) Cache)"
proof -
  let ?calls = "[Insert 0 ''Alex'', Insert 1 ''John''] :: (nat, string, nat) call list"
  let ?C = "\<lparr>d_map = [0 \<mapsto> (''Alex'', 1), 1 \<mapsto> (''John'', 2)],
            d_queue = [(1, 0), (2, 1)],
            d_evictionPolicy = e_LRU, d_lowWatermark = 2, d_highWatermark = 2,
            d_postEvictionCallback = None, evictions = []\<rparr> :: (nat, string, nat) Cache"
  let ?C1 = "\<lparr>d_map = [1 \<mapsto> (''John'', 2)],
            d_queue = [(2, 1)],
            d_evictionPolicy = e_LRU, d_lowWatermark = 2, d_highWatermark = 2,
            d_postEvictionCallback = None, evictions = [(0, ''Alex'', None)]\<rparr> :: (nat, string, nat) Cache"
  have r: "run ?calls (mkCache e_LRU 2 2) = Inr ?C"
    by (simp add: mkCache_def cache_insert_def enforceHighWatermark_def cache_size_def
     push_back_def last_node_def QueueProctor_destroy_def fresh_node_def eval_nat_numeral)
  have a: "d_map ?C 5 = None" by simp
  have e: "enforceHighWatermark ?C = Inr ?C1"
    by (simp add: enforceHighWatermark_def cache_size_def evictLoop.simps front_def
         evictItem_def list_erase_def eval_nat_numeral)
  from failed_insert_rolls_back[OF r a, of "''Tim''"] e
  have "cache_insert True 5 ''Tim'' ?C = Inr (ThrewBadAlloc, ?C1) \<and> cache_inv ?C1" by simp
  with r show ?thesis by simp
qed

subsection \<open>C8: erase\<close>

text \<open>
  C8. In a state reached from the constructor, \<^verbatim>\<open>erase(key)\<close> of a key that is not in
  the cache returns 1 (not found) and leaves the cache as it was: the same map, the same
  queue, the same trace, so no callback was invoked. \<^verbatim>\<open>erase(key)\<close> of a key that is in
  the cache returns 0, removes the entry of that key from the map and its node from the
  queue and nothing else, so that \<^verbatim>\<open>size()\<close> and the length of the queue go down by one,
  and invokes the post-eviction callback once, with the value handle of the key, if a
  callback is set (and invokes nothing if none is set).
\<close>

theorem erase_absent_or_present:
  assumes reach: "run calls (mkCache policy low high) = Inr c"
  shows "(d_map c key = None \<longrightarrow> erase key c = Inr (1, c)) \<and>
         (\<forall>v n. d_map c key = Some (v, n) \<longrightarrow>
            (\<exists>c'. erase key c = Inr (0, c') \<and>
               d_map c' = (d_map c)(key := None) \<and>
               d_queue c' = filter (\<lambda>e. snd e \<noteq> key) (d_queue c) \<and>
               Suc (cache_size c') = cache_size c \<and>
               Suc (length (d_queue c')) = length (d_queue c) \<and>
               evictions c' = evictions c @ [(key, v, d_postEvictionCallback c)] \<and>
               callback_calls c' = callback_calls c @
                  (case d_postEvictionCallback c of None \<Rightarrow> [] | Some f \<Rightarrow> [(f, v)]) \<and>
               d_evictionPolicy c' = d_evictionPolicy c \<and>
               d_lowWatermark c' = d_lowWatermark c \<and>
               d_highWatermark c' = d_highWatermark c \<and>
               d_postEvictionCallback c' = d_postEvictionCallback c))"
proof (intro conjI allI impI)
  assume "d_map c key = None"
  then show "erase key c = Inr (1, c)" by (simp add: erase_def)
next
  fix v n assume f: "d_map c key = Some (v, n)"
  from reach have inv: "cache_inv c" by (rule reach_inv(1))
  let ?c' = "c\<lparr>d_queue := filter (\<lambda>e. snd e \<noteq> key) (d_queue c),
                d_map := (d_map c)(key := None),
                evictions := evictions c @ [(key, v, d_postEvictionCallback c)]\<rparr>"
  have ev: "evictItem (key, (v, n)) c = Inr ?c'" using inv f by (rule evictItem_inv(1))
  have inv': "cache_inv ?c'" using inv f by (rule evictItem_inv(2))
  have er: "erase key c = Inr (0, ?c')" by (simp add: erase_def f ev)
  from f have kin: "key \<in> dom (d_map c)" by auto
  have sz: "cache_size c = length (d_queue c)" using inv by (rule inv_size)
  have sz': "cache_size ?c' = length (d_queue ?c')" using inv' by (rule inv_size)
  from inv have fin: "finite (dom (d_map c))" by (simp add: cache_inv_def)
  have "cache_size ?c' = card (dom (d_map c) - {key})" by (simp add: cache_size_def)
  also have "Suc \<dots> = card (dom (d_map c))" using fin kin by (rule card_Suc_Diff1)
  finally have s1: "Suc (cache_size ?c') = cache_size c" by (simp add: cache_size_def)
  with sz sz' have s2: "Suc (length (d_queue ?c')) = length (d_queue c)" by simp
  have cb: "callback_calls ?c' = callback_calls c @
                  (case d_postEvictionCallback c of None \<Rightarrow> [] | Some f \<Rightarrow> [(f, v)])"
    by (simp add: callback_calls_def split: option.split)
  show "\<exists>c'. erase key c = Inr (0, c') \<and>
               d_map c' = (d_map c)(key := None) \<and>
               d_queue c' = filter (\<lambda>e. snd e \<noteq> key) (d_queue c) \<and>
               Suc (cache_size c') = cache_size c \<and>
               Suc (length (d_queue c')) = length (d_queue c) \<and>
               evictions c' = evictions c @ [(key, v, d_postEvictionCallback c)] \<and>
               callback_calls c' = callback_calls c @
                  (case d_postEvictionCallback c of None \<Rightarrow> [] | Some f \<Rightarrow> [(f, v)]) \<and>
               d_evictionPolicy c' = d_evictionPolicy c \<and>
               d_lowWatermark c' = d_lowWatermark c \<and>
               d_highWatermark c' = d_highWatermark c \<and>
               d_postEvictionCallback c' = d_postEvictionCallback c"
  proof (intro exI[of _ ?c'] conjI)
    show "erase key c = Inr (0, ?c')" by (rule er)
    show "Suc (cache_size ?c') = cache_size c" by (rule s1)
    show "Suc (length (d_queue ?c')) = length (d_queue c)" by (rule s2)
    show "callback_calls ?c' = callback_calls c @
                  (case d_postEvictionCallback c of None \<Rightarrow> [] | Some f \<Rightarrow> [(f, v)])" by (rule cb)
  qed simp_all
qed

theorem erase_absent_or_present_witness:
  "run [SetPostEvictionCallback (Some 7), Insert 0 ''Alex'', Insert 1 ''John''] (mkCache e_FIFO 2 3)
     = Inr (\<lparr>d_map = [0 \<mapsto> (''Alex'', 1), 1 \<mapsto> (''John'', 2)],
             d_queue = [(1, 0), (2, 1)],
             d_evictionPolicy = e_FIFO, d_lowWatermark = 2, d_highWatermark = 3,
             d_postEvictionCallback = Some 7, evictions = []\<rparr> :: (nat, string, nat) Cache) \<and>
   erase 5 (\<lparr>d_map = [0 \<mapsto> (''Alex'', 1), 1 \<mapsto> (''John'', 2)],
             d_queue = [(1, 0), (2, 1)],
             d_evictionPolicy = e_FIFO, d_lowWatermark = 2, d_highWatermark = 3,
             d_postEvictionCallback = Some 7, evictions = []\<rparr> :: (nat, string, nat) Cache)
     = Inr (1, \<lparr>d_map = [0 \<mapsto> (''Alex'', 1), 1 \<mapsto> (''John'', 2)],
             d_queue = [(1, 0), (2, 1)],
             d_evictionPolicy = e_FIFO, d_lowWatermark = 2, d_highWatermark = 3,
             d_postEvictionCallback = Some 7, evictions = []\<rparr>) \<and>
   erase 0 (\<lparr>d_map = [0 \<mapsto> (''Alex'', 1), 1 \<mapsto> (''John'', 2)],
             d_queue = [(1, 0), (2, 1)],
             d_evictionPolicy = e_FIFO, d_lowWatermark = 2, d_highWatermark = 3,
             d_postEvictionCallback = Some 7, evictions = []\<rparr> :: (nat, string, nat) Cache)
     = Inr (0, \<lparr>d_map = [1 \<mapsto> (''John'', 2)],
             d_queue = [(2, 1)],
             d_evictionPolicy = e_FIFO, d_lowWatermark = 2, d_highWatermark = 3,
             d_postEvictionCallback = Some 7, evictions = [(0, ''Alex'', Some 7)]\<rparr>) \<and>
   callback_calls (\<lparr>d_map = [1 \<mapsto> (''John'', 2)],
             d_queue = [(2, 1)],
             d_evictionPolicy = e_FIFO, d_lowWatermark = 2, d_highWatermark = 3,
             d_postEvictionCallback = Some 7, evictions = [(0, ''Alex'', Some 7)]\<rparr>
             :: (nat, string, nat) Cache) = [(7, ''Alex'')]"
proof -
  let ?calls = "[SetPostEvictionCallback (Some 7), Insert 0 ''Alex'', Insert 1 ''John'']
                :: (nat, string, nat) call list"
  let ?C = "\<lparr>d_map = [0 \<mapsto> (''Alex'', 1), 1 \<mapsto> (''John'', 2)],
             d_queue = [(1, 0), (2, 1)],
             d_evictionPolicy = e_FIFO, d_lowWatermark = 2, d_highWatermark = 3,
             d_postEvictionCallback = Some 7, evictions = []\<rparr> :: (nat, string, nat) Cache"
  let ?C' = "\<lparr>d_map = [1 \<mapsto> (''John'', 2)],
             d_queue = [(2, 1)],
             d_evictionPolicy = e_FIFO, d_lowWatermark = 2, d_highWatermark = 3,
             d_postEvictionCallback = Some 7, evictions = [(0, ''Alex'', Some 7)]\<rparr>
             :: (nat, string, nat) Cache"
  have r: "run ?calls (mkCache e_FIFO 2 3) = Inr ?C"
    by (simp add: mkCache_def cache_insert_def enforceHighWatermark_def cache_size_def
     push_back_def last_node_def QueueProctor_destroy_def fresh_node_def
     setPostEvictionCallback_def eval_nat_numeral)
  have absent: "d_map ?C 5 = None" by simp
  have present: "d_map ?C 0 = Some (''Alex'', 1)" by simp
  from erase_absent_or_present[OF r, of 5] absent
  have e5: "erase 5 ?C = Inr (1, ?C)" by blast
  from erase_absent_or_present[OF r, of 0] present
  obtain c' where e0: "erase 0 ?C = Inr (0, c')"
    and m: "d_map c' = (d_map ?C)(0 := None)"
    and q: "d_queue c' = filter (\<lambda>e. snd e \<noteq> 0) (d_queue ?C)"
    and ev: "evictions c' = evictions ?C @ [(0, ''Alex'', d_postEvictionCallback ?C)]"
    and cc: "callback_calls c' = callback_calls ?C @
                  (case d_postEvictionCallback ?C of None \<Rightarrow> [] | Some f \<Rightarrow> [(f, ''Alex'')])"
    and rest: "d_evictionPolicy c' = d_evictionPolicy ?C" "d_lowWatermark c' = d_lowWatermark ?C"
      "d_highWatermark c' = d_highWatermark ?C" "d_postEvictionCallback c' = d_postEvictionCallback ?C"
    by blast
  have "c' = ?C'"
    using m q ev rest by (cases c') (simp add: fun_eq_iff)
  with e0 cc have "erase 0 ?C = Inr (0, ?C')" and "callback_calls ?C' = [(7, ''Alex'')]"
    by (simp_all add: callback_calls_def)
  with r e5 show ?thesis by simp
qed

subsection \<open>C9: insert, then tryGetValue\<close>

text \<open>
  C9. In every state reached from a cache constructed with
  \<open>1 \<le> lowWatermark \<le> highWatermark\<close>, for every key and value handle, a call of
  \<^verbatim>\<open>insert(key, valuePtr)\<close> (whose allocation succeeds) returns, and a call of
  \<^verbatim>\<open>tryGetValue\<close> for the key right after it, with either value of
  \<^verbatim>\<open>modifyEvictionQueue\<close>, returns 0 and loads that value handle; it leaves the cache
  unchanged, the key being at the back of the queue already.
\<close>

theorem insert_then_tryGetValue:
  assumes reach: "run calls (mkCache policy low high) = Inr c"
    and wm: "1 \<le> low" "low \<le> high"
  shows "\<exists>c'. cache_insert False key valuePtr c = Inr (Returned, c') \<and>
              tryGetValue key modifyEvictionQueue c' = Inr (0, Some valuePtr, c')"
proof -
  from reach have inv: "cache_inv c" by (rule reach_inv(1))
  from inv obtain c1 where en: "enforceHighWatermark c = Inr c1" and inv1: "cache_inv c1"
    by (rule inv_enforce)
  show ?thesis
  proof (cases "d_map c1 key")
    case None
    let ?n = "fresh_node (d_queue c1)"
    let ?c' = "c1\<lparr>d_queue := d_queue c1 @ [(?n, key)],
                   d_map := (d_map c1)(key \<mapsto> (valuePtr, ?n))\<rparr>"
    have ins: "cache_insert False key valuePtr c = Inr (Returned, ?c')"
      using en None by (rule insert_absent_returns)
    have "tryGetValue key modifyEvictionQueue ?c' = Inr (0, Some valuePtr, ?c')"
      by (simp add: tryGetValue_def last_node_snoc)
    with ins show ?thesis by blast
  next
    case (Some entry)
    then obtain old n where f: "d_map c1 key = Some (old, n)" by (cases entry) simp
    let ?c' = "c1\<lparr>d_map := (d_map c1)(key \<mapsto> (valuePtr, n)),
                   d_queue := filter (\<lambda>e. snd e \<noteq> key) (d_queue c1) @ [(n, key)]\<rparr>"
    have ins: "cache_insert False key valuePtr c = Inr (Returned, ?c')"
      using inv1 en f by (rule insert_present)
    have "tryGetValue key modifyEvictionQueue ?c' = Inr (0, Some valuePtr, ?c')"
      by (simp add: tryGetValue_def last_node_snoc)
    with ins show ?thesis by blast
  qed
qed

theorem insert_then_tryGetValue_witness:
  "run [Insert 0 ''Alex'', Insert 1 ''John''] (mkCache e_LRU 2 2)
     = Inr (\<lparr>d_map = [0 \<mapsto> (''Alex'', 1), 1 \<mapsto> (''John'', 2)],
             d_queue = [(1, 0), (2, 1)],
             d_evictionPolicy = e_LRU, d_lowWatermark = 2, d_highWatermark = 2,
             d_postEvictionCallback = None, evictions = []\<rparr> :: (nat, string, nat) Cache) \<and>
   cache_insert False 1 ''Tim''
      (\<lparr>d_map = [0 \<mapsto> (''Alex'', 1), 1 \<mapsto> (''John'', 2)],
        d_queue = [(1, 0), (2, 1)],
        d_evictionPolicy = e_LRU, d_lowWatermark = 2, d_highWatermark = 2,
        d_postEvictionCallback = None, evictions = []\<rparr> :: (nat, string, nat) Cache)
     = Inr (Returned,
          \<lparr>d_map = [1 \<mapsto> (''Tim'', 2)],
            d_queue = [(2, 1)],
            d_evictionPolicy = e_LRU, d_lowWatermark = 2, d_highWatermark = 2,
            d_postEvictionCallback = None, evictions = [(0, ''Alex'', None)]\<rparr>) \<and>
   tryGetValue 1 True
      (\<lparr>d_map = [1 \<mapsto> (''Tim'', 2)],
        d_queue = [(2, 1)],
        d_evictionPolicy = e_LRU, d_lowWatermark = 2, d_highWatermark = 2,
        d_postEvictionCallback = None, evictions = [(0, ''Alex'', None)]\<rparr>
        :: (nat, string, nat) Cache)
     = Inr (0, Some ''Tim'',
          \<lparr>d_map = [1 \<mapsto> (''Tim'', 2)],
            d_queue = [(2, 1)],
            d_evictionPolicy = e_LRU, d_lowWatermark = 2, d_highWatermark = 2,
            d_postEvictionCallback = None, evictions = [(0, ''Alex'', None)]\<rparr>)"
proof -
  let ?calls = "[Insert 0 ''Alex'', Insert 1 ''John''] :: (nat, string, nat) call list"
  let ?C = "\<lparr>d_map = [0 \<mapsto> (''Alex'', 1), 1 \<mapsto> (''John'', 2)],
            d_queue = [(1, 0), (2, 1)],
            d_evictionPolicy = e_LRU, d_lowWatermark = 2, d_highWatermark = 2,
            d_postEvictionCallback = None, evictions = []\<rparr> :: (nat, string, nat) Cache"
  let ?C' = "\<lparr>d_map = [1 \<mapsto> (''Tim'', 2)],
            d_queue = [(2, 1)],
            d_evictionPolicy = e_LRU, d_lowWatermark = 2, d_highWatermark = 2,
            d_postEvictionCallback = None, evictions = [(0, ''Alex'', None)]\<rparr>
            :: (nat, string, nat) Cache"
  have r: "run ?calls (mkCache e_LRU 2 2) = Inr ?C"
    by (simp add: mkCache_def cache_insert_def enforceHighWatermark_def cache_size_def
     push_back_def last_node_def QueueProctor_destroy_def fresh_node_def eval_nat_numeral)
  have i: "cache_insert False 1 ''Tim'' ?C = Inr (Returned, ?C')"
    by (simp add: cache_insert_def enforceHighWatermark_def cache_size_def evictLoop.simps
         front_def evictItem_def list_erase_def splice_to_end_def eval_nat_numeral)
  have wm: "(1::nat) \<le> 2" "(2::nat) \<le> 2" by simp_all
  from insert_then_tryGetValue[OF r wm, of 1 "''Tim''" True] i
  have "tryGetValue 1 True ?C' = Inr (0, Some ''Tim'', ?C')" by simp
  with r i show ?thesis by simp
qed

subsection \<open>C10: insert at the high watermark of a key that is present\<close>

text \<open>
  C10. In a state reached from a cache constructed with
  \<open>1 \<le> lowWatermark \<le> highWatermark\<close>, let \<^verbatim>\<open>insert(key, valuePtr)\<close> be called when
  \<^verbatim>\<open>size() >= highWatermark\<close> and the key is in the cache with the value handle \<open>old\<close>.
  The enforcement pass runs before the key is looked up and evicts the first
  \<open>size() + 1 - lowWatermark\<close> keys of the queue. If the key is one of them, the pass
  evicts it, the eviction being recorded with \<open>old\<close> and the callback that is set (so
  the callback, if set, was invoked with \<open>old\<close>), and the key is then added as a fresh
  entry: a new node at the back of the queue, to which the map entry of the key points.
  In particular, with both watermarks 1 and the key the only one in the cache, the call
  makes exactly one eviction, that of the key with its old value handle, and the key is
  in the cache afterwards, with the new value handle.
\<close>

theorem insert_evicts_its_own_key:
  assumes reach: "run calls (mkCache policy low high) = Inr (c :: ('k, 'v, 'cb) Cache)"
    and wm: "1 \<le> low" "low \<le> high"
    and full: "high \<le> cache_size c"
    and f: "d_map c key = Some (old, n)"
  shows "(key \<in> snd ` set (take (Suc (cache_size c) - low) (d_queue c)) \<longrightarrow>
           (\<exists>c'. cache_insert False key v c = Inr (Returned, c') \<and>
              (key, old, d_postEvictionCallback c)
                 \<in> set (drop (length (evictions c)) (evictions c')) \<and>
              length (evictions c') = length (evictions c) + (Suc (cache_size c) - low) \<and>
              d_queue c' = drop (Suc (cache_size c) - low) (d_queue c) @
                 [(fresh_node (drop (Suc (cache_size c) - low) (d_queue c)), key)] \<and>
              d_map c' key = Some (v, fresh_node (drop (Suc (cache_size c) - low) (d_queue c))))) \<and>
         (low = 1 \<and> high = 1 \<and> dom (d_map c) = {key} \<longrightarrow>
           (\<exists>c'. cache_insert False key v c = Inr (Returned, c') \<and>
              evictions c' = evictions c @ [(key, old, d_postEvictionCallback c)] \<and>
              callback_calls c' = callback_calls c @
                 (case d_postEvictionCallback c of None \<Rightarrow> [] | Some cb \<Rightarrow> [(cb, old)]) \<and>
              dom (d_map c') = {key} \<and>
              d_map c' key = Some (v, fresh_node ([] :: 'k QueueType)) \<and>
              d_queue c' = [(fresh_node ([] :: 'k QueueType), key)]))"
proof (intro conjI impI)
  from reach have inv: "cache_inv c" and lo: "d_lowWatermark c = low" and hi: "d_highWatermark c = high"
    by (rule reach_inv)+
  {
    assume early: "key \<in> snd ` set (take (Suc (cache_size c) - low) (d_queue c))"
    from insert_after_own_eviction[OF inv, of key old n v] wm full f early lo hi
    show "\<exists>c'. cache_insert False key v c = Inr (Returned, c') \<and>
              (key, old, d_postEvictionCallback c)
                 \<in> set (drop (length (evictions c)) (evictions c')) \<and>
              length (evictions c') = length (evictions c) + (Suc (cache_size c) - low) \<and>
              d_queue c' = drop (Suc (cache_size c) - low) (d_queue c) @
                 [(fresh_node (drop (Suc (cache_size c) - low) (d_queue c)), key)] \<and>
              d_map c' key = Some (v, fresh_node (drop (Suc (cache_size c) - low) (d_queue c)))"
      by simp
  }
  {
    assume one: "low = 1 \<and> high = 1 \<and> dom (d_map c) = {key}"
    then have sz: "cache_size c = 1" by (simp add: cache_size_def)
    with inv_size[OF inv] have len: "length (d_queue c) = 1" by simp
    from inv f have "(n, key) \<in> set (d_queue c)" by (rule inv_lookup)
    with len have q: "d_queue c = [(n, key)]" by (cases "d_queue c") auto
    let ?c1 = "evictN 1 c"
    have en: "enforceHighWatermark c = Inr ?c1"
      using enforce_closed[OF inv] one lo hi len by (simp add: evict_count_def)
    have ab1: "d_map ?c1 key = None" by (simp add: q restrict_map_def)
    let ?c' = "?c1\<lparr>d_queue := d_queue ?c1 @ [(fresh_node (d_queue ?c1), key)],
                   d_map := (d_map ?c1)(key \<mapsto> (v, fresh_node (d_queue ?c1)))\<rparr>"
    have ins: "cache_insert False key v c = Inr (Returned, ?c')"
      using en ab1 by (rule insert_absent_returns)
    have evs: "evictions ?c' = evictions c @ [(key, old, d_postEvictionCallback c)]"
      by (simp add: evictN_evictions q f)
    have cbs: "callback_calls ?c' = callback_calls c @
                 (case d_postEvictionCallback c of None \<Rightarrow> [] | Some cb \<Rightarrow> [(cb, old)])"
      unfolding callback_calls_def evs by (simp split: option.split)
    have dm: "dom (d_map ?c') = {key}" using one by (auto simp: q restrict_map_def)
    have m: "d_map ?c' key = Some (v, fresh_node ([] :: 'k QueueType))" by (simp add: q)
    have qq: "d_queue ?c' = [(fresh_node ([] :: 'k QueueType), key)]" by (simp add: q)
    from ins evs cbs dm m qq
    show "\<exists>c'. cache_insert False key v c = Inr (Returned, c') \<and>
              evictions c' = evictions c @ [(key, old, d_postEvictionCallback c)] \<and>
              callback_calls c' = callback_calls c @
                 (case d_postEvictionCallback c of None \<Rightarrow> [] | Some cb \<Rightarrow> [(cb, old)]) \<and>
              dom (d_map c') = {key} \<and>
              d_map c' key = Some (v, fresh_node ([] :: 'k QueueType)) \<and>
              d_queue c' = [(fresh_node ([] :: 'k QueueType), key)]"
      by blast
  }
qed

theorem insert_evicts_its_own_key_witness:
  "run [SetPostEvictionCallback (Some 7), Insert 0 ''old''] (mkCache e_LRU 1 1)
     = Inr (\<lparr>d_map = [0 \<mapsto> (''old'', 1)], d_queue = [(1, 0)],
             d_evictionPolicy = e_LRU, d_lowWatermark = 1, d_highWatermark = 1,
             d_postEvictionCallback = Some 7, evictions = []\<rparr> :: (nat, string, nat) Cache) \<and>
   cache_insert False 0 ''new''
      (\<lparr>d_map = [0 \<mapsto> (''old'', 1)], d_queue = [(1, 0)],
        d_evictionPolicy = e_LRU, d_lowWatermark = 1, d_highWatermark = 1,
        d_postEvictionCallback = Some 7, evictions = []\<rparr> :: (nat, string, nat) Cache)
     = Inr (Returned,
            \<lparr>d_map = [0 \<mapsto> (''new'', 1)], d_queue = [(1, 0)],
             d_evictionPolicy = e_LRU, d_lowWatermark = 1, d_highWatermark = 1,
             d_postEvictionCallback = Some 7, evictions = [(0, ''old'', Some 7)]\<rparr>) \<and>
   callback_calls
      (\<lparr>d_map = [0 \<mapsto> (''new'', 1)], d_queue = [(1, 0)],
        d_evictionPolicy = e_LRU, d_lowWatermark = 1, d_highWatermark = 1,
        d_postEvictionCallback = Some 7, evictions = [(0, ''old'', Some 7)]\<rparr>
       :: (nat, string, nat) Cache) = [(7, ''old'')] \<and>
   run [SetPostEvictionCallback (Some 7), Insert 0 ''Alex'', Insert 1 ''John'', Insert 2 ''Rob'']
       (mkCache e_LRU 2 3)
     = Inr (\<lparr>d_map = [0 \<mapsto> (''Alex'', 1), 1 \<mapsto> (''John'', 2), 2 \<mapsto> (''Rob'', 3)],
             d_queue = [(1, 0), (2, 1), (3, 2)],
             d_evictionPolicy = e_LRU, d_lowWatermark = 2, d_highWatermark = 3,
             d_postEvictionCallback = Some 7, evictions = []\<rparr> :: (nat, string, nat) Cache) \<and>
   cache_insert False 1 ''Tim''
      (\<lparr>d_map = [0 \<mapsto> (''Alex'', 1), 1 \<mapsto> (''John'', 2), 2 \<mapsto> (''Rob'', 3)],
        d_queue = [(1, 0), (2, 1), (3, 2)],
        d_evictionPolicy = e_LRU, d_lowWatermark = 2, d_highWatermark = 3,
        d_postEvictionCallback = Some 7, evictions = []\<rparr> :: (nat, string, nat) Cache)
     = Inr (Returned,
            \<lparr>d_map = [2 \<mapsto> (''Rob'', 3), 1 \<mapsto> (''Tim'', 4)],
             d_queue = [(3, 2), (4, 1)],
             d_evictionPolicy = e_LRU, d_lowWatermark = 2, d_highWatermark = 3,
             d_postEvictionCallback = Some 7,
             evictions = [(0, ''Alex'', Some 7), (1, ''John'', Some 7)]\<rparr>) \<and>
   (1, ''John'', Some 7) \<in> set (drop (length ([] :: (nat \<times> string \<times> nat option) list))
                                    [(0::nat, ''Alex'', Some (7::nat)), (1, ''John'', Some 7)])"
proof -
  let ?callsA = "[SetPostEvictionCallback (Some 7), Insert 0 ''old''] :: (nat, string, nat) call list"
  let ?A = "\<lparr>d_map = [0 \<mapsto> (''old'', 1)], d_queue = [(1, 0)],
             d_evictionPolicy = e_LRU, d_lowWatermark = 1, d_highWatermark = 1,
             d_postEvictionCallback = Some 7, evictions = []\<rparr> :: (nat, string, nat) Cache"
  let ?A' = "\<lparr>d_map = [0 \<mapsto> (''new'', 1)], d_queue = [(1, 0)],
             d_evictionPolicy = e_LRU, d_lowWatermark = 1, d_highWatermark = 1,
             d_postEvictionCallback = Some 7, evictions = [(0, ''old'', Some 7)]\<rparr>
             :: (nat, string, nat) Cache"
  let ?callsB = "[SetPostEvictionCallback (Some 7), Insert 0 ''Alex'', Insert 1 ''John'',
                  Insert 2 ''Rob''] :: (nat, string, nat) call list"
  let ?B = "\<lparr>d_map = [0 \<mapsto> (''Alex'', 1), 1 \<mapsto> (''John'', 2), 2 \<mapsto> (''Rob'', 3)],
             d_queue = [(1, 0), (2, 1), (3, 2)],
             d_evictionPolicy = e_LRU, d_lowWatermark = 2, d_highWatermark = 3,
             d_postEvictionCallback = Some 7, evictions = []\<rparr> :: (nat, string, nat) Cache"
  let ?B' = "\<lparr>d_map = [2 \<mapsto> (''Rob'', 3), 1 \<mapsto> (''Tim'', 4)],
             d_queue = [(3, 2), (4, 1)],
             d_evictionPolicy = e_LRU, d_lowWatermark = 2, d_highWatermark = 3,
             d_postEvictionCallback = Some 7,
             evictions = [(0, ''Alex'', Some 7), (1, ''John'', Some 7)]\<rparr>
             :: (nat, string, nat) Cache"
  have rA: "run ?callsA (mkCache e_LRU 1 1) = Inr ?A"
    by (simp add: eval_defs setPostEvictionCallback_def)
  have iA: "cache_insert False 0 ''new'' ?A = Inr (Returned, ?A')"
    by (simp add: eval_defs)
  have wmA: "(1::nat) \<le> 1" by simp
  have fullA: "1 \<le> cache_size ?A" by (simp add: cache_size_def)
  have fA: "d_map ?A 0 = Some (''old'', 1)" by simp
  have oneA: "(1::nat) = 1 \<and> (1::nat) = 1 \<and> dom (d_map ?A) = {0}" by simp
  from insert_evicts_its_own_key[OF rA wmA wmA fullA fA, of "''new''"] oneA iA
  have cA: "callback_calls ?A' = [(7, ''old'')]" by (simp add: callback_calls_def)
  have rB: "run ?callsB (mkCache e_LRU 2 3) = Inr ?B"
    by (simp add: eval_defs setPostEvictionCallback_def eval_nat_numeral)
  have iB: "cache_insert False 1 ''Tim'' ?B = Inr (Returned, ?B')"
    by (simp add: eval_defs eval_nat_numeral)
  have wmB: "(1::nat) \<le> 2" "(2::nat) \<le> 3" by simp_all
  have fullB: "3 \<le> cache_size ?B" by (simp add: cache_size_def)
  have fB: "d_map ?B 1 = Some (''John'', 2)" by simp
  have earlyB: "1 \<in> snd ` set (take (Suc (cache_size ?B) - 2) (d_queue ?B))"
    by (simp add: cache_size_def eval_nat_numeral)
  from insert_evicts_its_own_key[OF rB wmB fullB fB, of "''Tim''"] earlyB iB
  have mB: "(1, ''John'', Some 7) \<in> set (drop (length ([] :: (nat \<times> string \<times> nat option) list))
                                    [(0::nat, ''Alex'', Some (7::nat)), (1, ''John'', Some 7)])"
    by simp
  from rA iA cA rB iB mB show ?thesis by blast
qed

end
